theory Spec2Isabelle
  imports Main "HOL-Library.While_Combinator"
begin

section \<open>IR nodes and the owning container\<close>

text \<open>
  Statements of the IR are heap objects reached through pointers. A pointer is modelled as
  a natural number, the heap as two total functions from pointers to objects (one for
  \<open>Val\<close>, one for \<open>Expr\<close>), and the container as a record that carries the heap together with
  the members of \<open>Fusion\<close> that the verified functions read or write.
\<close>

type_synonym val_id = nat

type_synonym expr_id = nat

type_synonym fusion_id = nat

datatype ValType = TensorView | IterDomain | PipelineVal | Others

datatype MemoryType = Local | Shared | Global

datatype IterType = Iteration | Reduction | Broadcast | Symbolic

datatype AliasType = NoAlias | InplaceUpdate | OtherAlias

datatype Direction = Forward | Backward

datatype Statement = ValStmt val_id | ExprStmt expr_id

text \<open>
  The fields of a value that the functions below touch: its value category, constness,
  the definition pointer (\<open>None\<close> for \<open>nullptr\<close>), the use list, the two role flags, the
  memory type (read only on tensor views) and the iteration type (read only on iteration
  domains).
\<close>

record Val =
  valType :: ValType
  isConst :: bool
  val_definition :: "expr_id option"
  val_uses :: "expr_id list"
  isFusionInput :: bool
  isFusionOutput :: bool
  memoryType :: MemoryType
  iterType :: IterType

record Expr =
  inputs :: "val_id list"
  outputs :: "val_id list"
  attributes :: "Statement list"
  expr_fusion :: "fusion_id option"

record AliasInfo =
  alias_type :: AliasType
  aliased_io :: "val_id option"
  hide_output :: bool

record Fusion =
  this_fusion :: fusion_id
  is_kernel :: bool
  val_heap :: "val_id \<Rightarrow> Val"
  expr_heap :: "expr_id \<Rightarrow> Expr"
  vals :: "val_id set"
  exprs :: "expr_id list"
  fusion_inputs :: "val_id list"
  fusion_outputs :: "val_id list"
  io_alias :: "val_id \<rightharpoonup> AliasInfo"
  all_tv_uses_valid :: bool

datatype error =
    NotInContainer
  | NotInActiveFusion
  | ImmediateScalarInput
  | DuplicatedInput
  | OutputNotFound
  | IsFusionInput
  | IsFusionOutput
  | NullptrArg
  | DuplicatedEntryDom0
  | DuplicatedEntryDom1
  | NotAnIterDomain
  | InvalidDerivedDomainOutput expr_id val_id
  | InvalidDerivedDomainInput expr_id val_id
  | RedundantId val_id

text \<open>Running a fallible step over a list, stopping at the first failure.\<close>

fun foldM :: "('a \<Rightarrow> 's \<Rightarrow> error + 's) \<Rightarrow> 'a list \<Rightarrow> 's \<Rightarrow> error + 's" where
  "foldM step [] s = Inr s"
| "foldM step (x # xs) s = (case step x s of Inl e \<Rightarrow> Inl e | Inr s' \<Rightarrow> foldM step xs s')"

subsection \<open>Accessors of \<open>Val\<close> and \<open>IrContainer\<close>\<close>

text \<open>
  The member functions of \<open>Val\<close>, \<open>TensorView\<close> and the base class \<open>IrContainer\<close> are
  declared outside the verified sources; each is given here as the field update or the
  membership test that the data model of the specification describes.
\<close>

definition update_val :: "Fusion \<Rightarrow> val_id \<Rightarrow> (Val \<Rightarrow> Val) \<Rightarrow> Fusion" where
  "update_val f v g = f\<lparr>val_heap := (val_heap f)(v := g (val_heap f v))\<rparr>"

definition invalidateTvUses :: "Fusion \<Rightarrow> Fusion" where
  \<comment> \<open>Modelled from the spec: \<open>Fusion::invalidateTvUses\<close>, clearing the "use-lists valid" flag.\<close>
  "invalidateTvUses f = f\<lparr>all_tv_uses_valid := False\<rparr>"

definition setMemoryType :: "Fusion \<Rightarrow> val_id \<Rightarrow> MemoryType \<Rightarrow> Fusion" where
  \<comment> \<open>Modelled from the spec: \<open>TensorView::setMemoryType\<close>, the memory-visibility flag.\<close>
  "setMemoryType f v m = update_val f v (\<lambda>x. x\<lparr>memoryType := m\<rparr>)"

definition setIsFusionInput :: "Fusion \<Rightarrow> val_id \<Rightarrow> bool \<Rightarrow> Fusion" where
  \<comment> \<open>Modelled from the spec: \<open>Val::setIsFusionInput\<close>, the "is fusion input" flag.\<close>
  "setIsFusionInput f v b = update_val f v (\<lambda>x. x\<lparr>isFusionInput := b\<rparr>)"

definition setIsFusionOutput :: "Fusion \<Rightarrow> val_id \<Rightarrow> bool \<Rightarrow> Fusion" where
  \<comment> \<open>Modelled from the spec: \<open>Val::setIsFusionOutput\<close>, the "is fusion output" flag.\<close>
  "setIsFusionOutput f v b = update_val f v (\<lambda>x. x\<lparr>isFusionOutput := b\<rparr>)"

definition setDefinition :: "Fusion \<Rightarrow> val_id \<Rightarrow> expr_id option \<Rightarrow> Fusion" where
  \<comment> \<open>Modelled from the spec: \<open>Val::setDefinition\<close>, the definition back-reference.\<close>
  "setDefinition f v d = update_val f v (\<lambda>x. x\<lparr>val_definition := d\<rparr>)"

definition addUse :: "Fusion \<Rightarrow> val_id \<Rightarrow> expr_id \<Rightarrow> Fusion" where
  \<comment> \<open>Modelled from the spec: \<open>Val::addUse\<close>, appending a consumer to the use list.\<close>
  "addUse f v e = update_val f v (\<lambda>x. x\<lparr>val_uses := val_uses x @ [e]\<rparr>)"

definition removeUse :: "Fusion \<Rightarrow> val_id \<Rightarrow> expr_id \<Rightarrow> Fusion" where
  \<comment> \<open>Modelled from the spec: \<open>Val::removeUse\<close>, detaching a consumer from the use list; the
      note in \<open>Fusion::removeExpr\<close> says that on a tensor view this may invalidate the
      use-list cache.\<close>
  "removeUse f v e =
     (if e \<in> set (val_uses (val_heap f v))
      then (let f1 = update_val f v (\<lambda>x. x\<lparr>val_uses := removeAll e (val_uses x)\<rparr>)
            in if valType (val_heap f v) = TensorView then invalidateTvUses f1 else f1)
      else f)"

definition inContainerVal :: "Fusion \<Rightarrow> val_id \<Rightarrow> bool" where
  \<comment> \<open>Modelled from the spec: \<open>IrContainer::inContainer\<close> on a value, membership in the
      owned set of values.\<close>
  "inContainerVal f v \<longleftrightarrow> v \<in> vals f"

definition inContainerExpr :: "Fusion \<Rightarrow> expr_id \<Rightarrow> bool" where
  \<comment> \<open>Modelled from the spec: \<open>IrContainer::inContainer\<close> on an expression, membership in
      the owned set of expressions.\<close>
  "inContainerExpr f e \<longleftrightarrow> e \<in> set (exprs f)"

definition IrContainer_registerExpr :: "Fusion \<Rightarrow> expr_id \<Rightarrow> Fusion" where
  \<comment> \<open>Modelled from the spec: \<open>IrContainer::registerExpr\<close>, adding the node to the owned set.\<close>
  "IrContainer_registerExpr f e = f\<lparr>exprs := exprs f @ [e]\<rparr>"

definition IrContainer_removeExpr :: "Fusion \<Rightarrow> expr_id \<Rightarrow> Fusion" where
  \<comment> \<open>Modelled from the spec: \<open>IrContainer::removeExpr\<close>, erasing the node from the live set.\<close>
  "IrContainer_removeExpr f e = f\<lparr>exprs := removeAll e (exprs f)\<rparr>"

definition IrContainer_removeVal :: "Fusion \<Rightarrow> val_id \<Rightarrow> Fusion" where
  \<comment> \<open>Modelled from the spec: \<open>IrContainer::removeVal\<close>, erasing the node from the live set.\<close>
  "IrContainer_removeVal f v = f\<lparr>vals := vals f - {v}\<rparr>"

subsection \<open>\<open>Fusion::addInput\<close>\<close>

definition addInput :: "Fusion \<Rightarrow> val_id \<Rightarrow> error + Fusion" where
  "addInput f input =
     (if \<not> inContainerVal f input then Inl NotInContainer
      else if valType (val_heap f input) = Others \<and> isConst (val_heap f input)
      then Inl ImmediateScalarInput
      else
        let f1 = (if valType (val_heap f input) = TensorView
                  then setMemoryType f input Global else f)
        in if isFusionInput (val_heap f1 input) then Inl DuplicatedInput
           else Inr ((setIsFusionInput (f1\<lparr>fusion_inputs := fusion_inputs f1 @ [input]\<rparr>) input True)
                       \<lparr>all_tv_uses_valid := False\<rparr>))"

subsection \<open>\<open>Fusion::replaceOutput\<close> and \<open>Fusion::getOutputAlias\<close>\<close>

definition replaceOutput :: "Fusion \<Rightarrow> val_id \<Rightarrow> val_id \<Rightarrow> error + Fusion" where
  "replaceOutput f output replacement =
     (if output \<notin> set (fusion_outputs f) then Inl OutputNotFound
      else
        let f1 = f\<lparr>fusion_outputs :=
                     map (\<lambda>v. if v = output then replacement else v) (fusion_outputs f)\<rparr>;
            f2 = (if valType (val_heap f1 replacement) = TensorView
                  then setMemoryType (setIsFusionOutput f1 replacement True) replacement Global
                  else f1);
            f3 = (if valType (val_heap f2 output) = TensorView
                  then setMemoryType (setIsFusionOutput f2 output False) output Local
                  else f2);
            f4 = invalidateTvUses f3
        in Inr (case io_alias f4 output of
                  None \<Rightarrow> f4
                | Some info \<Rightarrow>
                    f4\<lparr>io_alias := ((io_alias f4)(output := None))(replacement \<mapsto> info)\<rparr>))"



subsection \<open>\<open>Fusion::removeExpr\<close> and \<open>Fusion::removeVal\<close>\<close>

definition removeExpr :: "Fusion \<Rightarrow> expr_id \<Rightarrow> error + Fusion" where
  "removeExpr f expr =
     (if \<not> inContainerExpr f expr then Inl NotInContainer
      else
        let f1 = fold (\<lambda>out g. setDefinition g out None) (outputs (expr_heap f expr)) f;
            f2 = fold (\<lambda>inp g. removeUse g inp expr) (inputs (expr_heap f expr)) f1
        in Inr (IrContainer_removeExpr f2 expr))"

definition removeVal :: "Fusion \<Rightarrow> val_id \<Rightarrow> error + Fusion" where
  "removeVal f val =
     (if \<not> inContainerVal f val then Inl NotInContainer
      else if isFusionInput (val_heap f val) then Inl IsFusionInput
      else if isFusionOutput (val_heap f val) then Inl IsFusionOutput
      else
        case (case val_definition (val_heap f val) of
                Some orig \<Rightarrow> removeExpr f orig
              | None \<Rightarrow> Inr f) of
          Inl e \<Rightarrow> Inl e
        | Inr f1 \<Rightarrow>
            let exprs_to_remove =
                  filter (\<lambda>e. inContainerExpr f1 e \<and> val \<in> set (inputs (expr_heap f1 e)))
                    (exprs f1)
            in (case foldM (\<lambda>e g. removeExpr g e) exprs_to_remove f1 of
                  Inl e \<Rightarrow> Inl e
                | Inr f2 \<Rightarrow> Inr (IrContainer_removeVal f2 val)))"

subsection \<open>\<open>Fusion::registerExpr\<close>\<close>

definition registerExpr_input :: "expr_id \<Rightarrow> val_id \<Rightarrow> Fusion \<Rightarrow> error + Fusion" where
  \<comment> \<open>The body of the loop over \<open>expr->inputs()\<close>.\<close>
  "registerExpr_input expr input f =
     (if \<not> inContainerVal f input then Inl NotInContainer
      else if valType (val_heap f input) = TensorView then Inr (invalidateTvUses f)
      else Inr (addUse f input expr))"

definition registerExpr_output :: "bool \<Rightarrow> expr_id \<Rightarrow> val_id \<Rightarrow> Fusion \<Rightarrow> error + Fusion" where
  \<comment> \<open>The body of the loop over \<open>expr->outputs()\<close>.\<close>
  "registerExpr_output is_ssa expr output f =
     (if \<not> inContainerVal f output then Inl NotInContainer
      else
        case (case val_definition (val_heap f output) of
                Some d \<Rightarrow> if is_ssa then removeExpr f d else Inr f
              | None \<Rightarrow> Inr f) of
          Inl e \<Rightarrow> Inl e
        | Inr f1 \<Rightarrow>
            if is_ssa \<or> (\<not> is_ssa \<and> val_definition (val_heap f1 output) = None)
            then (let f2 = setDefinition f1 output (Some expr)
                  in Inr (if valType (val_heap f2 output) = TensorView
                          then invalidateTvUses f2 else f2))
            else Inr f1)"

definition registerExpr :: "Fusion \<Rightarrow> expr_id \<Rightarrow> error + Fusion" where
  "registerExpr f expr =
     (if inContainerExpr f expr then Inr f
      else if (case expr_fusion (expr_heap f expr) of
                 Some c \<Rightarrow> c \<noteq> this_fusion f | None \<Rightarrow> False)
      then Inl NotInActiveFusion
      else
        let f1 = IrContainer_registerExpr f expr
        in (case foldM (registerExpr_input expr) (inputs (expr_heap f1 expr)) f1 of
              Inl e \<Rightarrow> Inl e
            | Inr f2 \<Rightarrow>
                foldM (registerExpr_output (\<not> is_kernel f2) expr)
                  (outputs (expr_heap f2 expr)) f2))"

subsection \<open>Whole-graph replacement: the output rewriting of \<open>ValReplacementMutator\<close>\<close>

text \<open>
  The constructor of \<open>ValReplacementMutator\<close> first dispatches \<open>dispatchMutate\<close> over the
  sorted statements and then walks the replacement map, swapping every mapped value whose
  fusion-output flag is set into the output list. The statement order (\<open>StmtSort\<close>) and
  the mutator base class (\<open>OptOutMutator\<close>) are parameters of the model: \<open>more_stmts\<close> is
  the list the traversal visits and \<open>dispatchMutate\<close> the effect of one visit on the
  container. The map is an association list; its order stands for the iteration order of
  the \<open>unordered_map\<close>.
\<close>

definition replaceValue_outputs :: "(val_id \<times> val_id) list \<Rightarrow> Fusion \<Rightarrow> error + Fusion" where
  "replaceValue_outputs replacement_map fusion =
     foldM (\<lambda>(old_v, new_v) g.
              if isFusionOutput (val_heap g old_v) then replaceOutput g old_v new_v else Inr g)
       replacement_map fusion"

definition replaceValue ::
  "Statement list \<Rightarrow> (Statement \<Rightarrow> Fusion \<Rightarrow> error + Fusion) \<Rightarrow> Fusion
     \<Rightarrow> (val_id \<times> val_id) list \<Rightarrow> error + Fusion" where
  "replaceValue more_stmts dispatchMutate fusion replacement_map =
     (case foldM dispatchMutate more_stmts fusion of
        Inl e \<Rightarrow> Inl e
      | Inr f1 \<Rightarrow> replaceValue_outputs replacement_map f1)"

subsection \<open>Single-value substitution: \<open>ValReplacement::SubstituteInExpr\<close>\<close>

text \<open>
  \<open>SubstituteInExpr\<close> registers the one mutation \<open>reference \<mapsto> substitute\<close>, runs the
  expression mutator of its base class \<open>OptOutMutator\<close>, and returns the expression the
  mutator has handed to \<open>registerNewExpr\<close>, or the original one if there was none. Its
  \<open>removeExpr\<close> does nothing, so the original expression object stays as it is. A pointer
  argument may be null, so the arguments are options. A new expression object is a heap
  cell at an address that is neither the original expression nor registered in the
  container.
\<close>

definition fresh_expr :: "Fusion \<Rightarrow> expr_id \<Rightarrow> expr_id" where
  "fresh_expr f expr = Suc (fold max (exprs f) expr)"

definition OptOutMutator_mutate ::
  "Fusion \<Rightarrow> (val_id \<rightharpoonup> val_id) \<Rightarrow> expr_id \<Rightarrow> (expr_id \<times> Fusion) option" where
  \<comment> \<open>Modelled from the spec: \<open>OptOutMutator::mutate\<close> on an expression, which the verified
      sources do not hold. If no operand (input) of the expression matches a registered
      mutation, nothing is rebuilt and \<open>registerNewExpr\<close> is not called (\<open>None\<close>). Otherwise
      a new expression is produced that is identical except that every matching operand is
      replaced, and it is handed to \<open>registerNewExpr\<close>.\<close>
  "OptOutMutator_mutate f mutations expr =
     (if \<forall>v\<in>set (inputs (expr_heap f expr)). mutations v = None then None
      else
        let new_expr = fresh_expr f expr;
            e = expr_heap f expr;
            mutated = e\<lparr>inputs := map (\<lambda>v. case mutations v of Some w \<Rightarrow> w | None \<Rightarrow> v) (inputs e)\<rparr>
        in Some (new_expr, f\<lparr>expr_heap := (expr_heap f)(new_expr := mutated)\<rparr>))"

definition subsitute ::
  "Fusion \<Rightarrow> expr_id option \<Rightarrow> val_id option \<Rightarrow> val_id option \<Rightarrow> error + expr_id \<times> Fusion" where
  "subsitute f expr reference substitute =
     (case (expr, reference, substitute) of
        (Some e, Some r, Some s) \<Rightarrow>
          (case OptOutMutator_mutate f [r \<mapsto> s] e of
             None \<Rightarrow> Inr (e, f)
           | Some (expr_new, f') \<Rightarrow> Inr (expr_new, f'))
      | _ \<Rightarrow> Inl NullptrArg)"

definition replaceValInExprInputs ::
  "Fusion \<Rightarrow> expr_id \<Rightarrow> val_id \<Rightarrow> val_id \<Rightarrow> error + expr_id \<times> Fusion" where
  "replaceValInExprInputs f expr reference substitute =
     subsitute f (Some expr) (Some reference) (Some substitute)"

subsection \<open>\<open>compareDomains\<close>\<close>

text \<open>
  The traversal \<open>IRBFS::getExprsBetween\<close> and the reachability query
  \<open>IRBFS::getReachableValsFrom\<close> are declared outside the verified sources and are
  parameters of the model. The frontier, an unordered set that the function iterates over, is a
  duplicate-free list in insertion order; the other sets are only asked for membership.
  The default result has both flags false.
\<close>

record CompareDomainResult =
  dom0_has_unreachable_ids :: bool
  dom1_has_unreachable_ids :: bool

definition isIterDomain :: "Fusion \<Rightarrow> val_id \<Rightarrow> bool" where
  \<comment> \<open>The dynamic type test \<open>v->isA<IterDomain>()\<close>.\<close>
  "isIterDomain f v \<longleftrightarrow> valType (val_heap f v) = IterDomain"

definition isBroadcast :: "Fusion \<Rightarrow> val_id \<Rightarrow> bool" where
  \<comment> \<open>Modelled from the spec: \<open>IterDomain::isBroadcast\<close>, the iteration-kind tag "broadcast".\<close>
  "isBroadcast f v \<longleftrightarrow> iterType (val_heap f v) = Broadcast"

definition is_symb :: "Fusion \<Rightarrow> val_id \<Rightarrow> bool" where
  "is_symb f v \<longleftrightarrow> iterType (val_heap f v) = Symbolic"

definition from_nodes :: "Fusion \<Rightarrow> expr_id \<times> Direction \<Rightarrow> val_id list" where
  "from_nodes f ed =
     (case ed of (expr, direction) \<Rightarrow>
        if direction = Forward then inputs (expr_heap f expr) else outputs (expr_heap f expr))"

definition to_nodes :: "Fusion \<Rightarrow> expr_id \<times> Direction \<Rightarrow> val_id list" where
  "to_nodes f ed =
     (case ed of (expr, direction) \<Rightarrow>
        if direction = Forward then outputs (expr_heap f expr) else inputs (expr_heap f expr))"

definition insert_to :: "expr_id \<Rightarrow> val_id set \<Rightarrow> val_id \<Rightarrow> val_id list \<Rightarrow> error + val_id list" where
  \<comment> \<open>The body of the loop over \<open>to\<close>.\<close>
  "insert_to expr additional_ids_set v frontier =
     (if v \<in> additional_ids_set then Inr frontier
      else if v \<in> set frontier then Inl (InvalidDerivedDomainOutput expr v)
      else Inr (frontier @ [v]))"

definition erase_from ::
  "Fusion \<Rightarrow> bool \<Rightarrow> expr_id \<Rightarrow> val_id set \<Rightarrow> val_id \<Rightarrow> val_id list \<Rightarrow> error + val_id list" where
  \<comment> \<open>The body of the loop over \<open>from\<close>.\<close>
  "erase_from f ignore_broadcast expr additional_ids_set v frontier =
     (let ignorable = (ignore_broadcast \<and> isBroadcast f v) \<or> v \<in> additional_ids_set
      in if v \<in> set frontier then Inr (removeAll v frontier)
         else if ignorable then Inr frontier
         else Inl (InvalidDerivedDomainInput expr v))"

definition compareDomains_step ::
  "Fusion \<Rightarrow> bool \<Rightarrow> expr_id \<times> Direction \<Rightarrow> val_id list \<times> val_id set
     \<Rightarrow> error + val_id list \<times> val_id set" where
  \<comment> \<open>The body of the loop over the traversed expressions.\<close>
  "compareDomains_step f ignore_broadcast ed st =
     (case st of (frontier, additional_ids_set) \<Rightarrow>
        if \<not> list_all (isIterDomain f) (inputs (expr_heap f (fst ed))) then Inl NotAnIterDomain
        else if \<not> list_all (isIterDomain f) (outputs (expr_heap f (fst ed))) then Inl NotAnIterDomain
        else if list_all (\<lambda>v. v \<in> additional_ids_set) (from_nodes f ed)
        then Inr (frontier, additional_ids_set \<union> set (to_nodes f ed))
        else
          (case foldM (insert_to (fst ed) additional_ids_set) (to_nodes f ed) frontier of
             Inl e \<Rightarrow> Inl e
           | Inr frontier1 \<Rightarrow>
               (case foldM (erase_from f ignore_broadcast (fst ed) additional_ids_set)
                       (from_nodes f ed) frontier1 of
                  Inl e \<Rightarrow> Inl e
                | Inr frontier2 \<Rightarrow> Inr (frontier2, additional_ids_set))))"

definition check_id ::
  "Fusion \<Rightarrow> bool \<Rightarrow> (val_id set \<Rightarrow> val_id list \<Rightarrow> val_id list) \<Rightarrow> val_id set \<Rightarrow> val_id \<Rightarrow> bool
     \<Rightarrow> error + bool" where
  \<comment> \<open>The body of the loop in the lambda \<open>check_ids\<close>.\<close>
  "check_id f ignore_broadcast getReachableValsFrom target_set an_id unreachable =
     (if is_symb f an_id \<or> (ignore_broadcast \<and> isBroadcast f an_id) then Inr unreachable
      else if an_id \<notin> target_set
      then (if getReachableValsFrom target_set [an_id] = [] then Inr True else Inl (RedundantId an_id))
      else Inr unreachable)"

definition check_ids ::
  "Fusion \<Rightarrow> bool \<Rightarrow> (val_id set \<Rightarrow> val_id list \<Rightarrow> val_id list) \<Rightarrow> val_id list \<Rightarrow> val_id set
     \<Rightarrow> error + bool" where
  "check_ids f ignore_broadcast getReachableValsFrom ids_to_check target_set =
     foldM (check_id f ignore_broadcast getReachableValsFrom target_set) ids_to_check False"

definition compareDomains_result ::
  "Fusion \<Rightarrow> (val_id set \<Rightarrow> val_id list \<Rightarrow> val_id list) \<Rightarrow> bool \<Rightarrow> val_id list \<Rightarrow> val_id list
     \<Rightarrow> error + CompareDomainResult" where
  \<comment> \<open>The part of \<open>compareDomains\<close> after the traversal, from the frontier it has left.\<close>
  "compareDomains_result f getReachableValsFrom ignore_broadcast dom1 frontier0 =
     (let ids_to_remove = filter (\<lambda>an_id. is_symb f an_id \<and> an_id \<in> set dom1) frontier0;
          frontier = filter (\<lambda>an_id. an_id \<notin> set ids_to_remove) frontier0;
          dom1_list = filter (\<lambda>an_id. an_id \<notin> set ids_to_remove) dom1;
          frontier_has_symbolic = list_ex (is_symb f) frontier;
          dom1_has_symbolic = list_ex (is_symb f) dom1_list
      in (case (if \<not> frontier_has_symbolic
                then check_ids f ignore_broadcast getReachableValsFrom dom1 (set frontier)
                else Inr False) of
            Inl e \<Rightarrow> Inl e
          | Inr d1 \<Rightarrow>
              (case (if \<not> dom1_has_symbolic
                     then check_ids f ignore_broadcast getReachableValsFrom frontier (set dom1_list)
                     else Inr False) of
                 Inl e \<Rightarrow> Inl e
               | Inr d0 \<Rightarrow>
                   Inr \<lparr>dom0_has_unreachable_ids = d0, dom1_has_unreachable_ids = d1\<rparr>)))"

definition compareDomains ::
  "Fusion \<Rightarrow> (val_id list \<Rightarrow> val_id list \<Rightarrow> (expr_id \<times> Direction) list)
     \<Rightarrow> (val_id set \<Rightarrow> val_id list \<Rightarrow> val_id list)
     \<Rightarrow> val_id list \<Rightarrow> val_id list \<Rightarrow> val_id list \<Rightarrow> bool \<Rightarrow> error + CompareDomainResult" where
  "compareDomains f getExprsBetween getReachableValsFrom dom0 dom1 additional_ids ignore_broadcast =
     (if dom0 = [] \<and> dom1 = []
      then Inr \<lparr>dom0_has_unreachable_ids = False, dom1_has_unreachable_ids = False\<rparr>
      else if \<not> distinct dom0 then Inl DuplicatedEntryDom0
      else if \<not> distinct dom1 then Inl DuplicatedEntryDom1
      else
        let dom0_all = dom0 @ additional_ids;
            exprs = getExprsBetween dom0_all dom1
        in (case foldM (compareDomains_step f ignore_broadcast) exprs
                   (remdups dom0_all, set additional_ids) of
              Inl e \<Rightarrow> Inl e
            | Inr (frontier0, additional_ids_set) \<Rightarrow>
                compareDomains_result f getReachableValsFrom ignore_broadcast dom1 frontier0))"

subsection \<open>\<open>checkCycle\<close> and \<open>isRecursivelyDefined\<close>\<close>

text \<open>
  Both functions are loops over a work list that end either by a \<open>return\<close> from inside the
  loop or when the work list is empty. A loop is \<open>while_option\<close> over a record of the local
  variables, with one more field for the value returned from inside the loop; the result of
  the function is \<open>None\<close> when the loop does not end. The helper \<open>next\<close> of the source is
  \<open>next_of\<close>. The path of \<open>checkCycle\<close>, an unordered set that is copied into the returned
  vector, is a duplicate-free list in insertion order.
\<close>

fun next_of :: "Fusion \<Rightarrow> Statement \<Rightarrow> Statement list" where
  "next_of fusion (ValStmt v) =
     (case val_definition (val_heap fusion v) of Some d \<Rightarrow> [ExprStmt d] | None \<Rightarrow> [])"
| "next_of fusion (ExprStmt e) = map ValStmt (inputs (expr_heap fusion e))"

record cycle_state =
  cc_path :: "Statement list"
  cc_visited :: "Statement set"
  cc_queue :: "Statement list"
  cc_result :: "Statement list option"

fun push_next :: "Statement list \<Rightarrow> Statement list \<Rightarrow> Statement list \<Rightarrow> Statement list option" where
  \<comment> \<open>The loop over \<open>next_stmts\<close>: \<open>None\<close> when a statement on the path is met (the function
      returns the path), else the queue with every statement pushed to its front.\<close>
  "push_next path [] queue = Some queue"
| "push_next path (stmt # stmts) queue =
     (if stmt \<in> set path then None else push_next path stmts (stmt # queue))"

definition checkCycle_step :: "Fusion \<Rightarrow> Statement set \<Rightarrow> cycle_state \<Rightarrow> cycle_state" where
  "checkCycle_step fusion from s =
     (case cc_queue s of
        [] \<Rightarrow> s
      | val # rest \<Rightarrow>
          if val \<in> from \<or> val \<in> cc_visited s then s\<lparr>cc_queue := rest\<rparr>
          else if next_of fusion val = []
          then s\<lparr>cc_queue := rest, cc_visited := insert val (cc_visited s)\<rparr>
          else if val \<in> set (cc_path s)
          then s\<lparr>cc_queue := rest, cc_path := removeAll val (cc_path s),
                 cc_visited := insert val (cc_visited s)\<rparr>
          else (let path = cc_path s @ [val]
                in (case push_next path (next_of fusion val) (cc_queue s) of
                      None \<Rightarrow> s\<lparr>cc_path := path, cc_result := Some path\<rparr>
                    | Some queue \<Rightarrow> s\<lparr>cc_path := path, cc_queue := queue\<rparr>)))"

definition checkCycle :: "Fusion \<Rightarrow> Statement set \<Rightarrow> val_id list \<Rightarrow> Statement list option" where
  "checkCycle fusion from to =
     map_option (\<lambda>s. case cc_result s of Some ret \<Rightarrow> ret | None \<Rightarrow> [])
       (while_option (\<lambda>s. cc_result s = None \<and> cc_queue s \<noteq> []) (checkCycle_step fusion from)
          \<lparr>cc_path = [], cc_visited = {}, cc_queue = map ValStmt to, cc_result = None\<rparr>)"

definition checkCycle_outputs :: "Fusion \<Rightarrow> Statement list option" where
  \<comment> \<open>The overload \<open>checkCycle(fusion)\<close>.\<close>
  "checkCycle_outputs fusion = checkCycle fusion {} (fusion_outputs fusion)"

record recursion_state =
  vals_to_visit :: "val_id list"
  visited_vals :: "val_id set"
  rd_result :: "bool option"

fun enqueue_inputs :: "val_id \<Rightarrow> val_id set \<Rightarrow> val_id list \<Rightarrow> val_id list \<Rightarrow> val_id list option" where
  \<comment> \<open>The loop over \<open>v_def->inputs()\<close>: \<open>None\<close> when an input is \<open>val\<close> itself (the function
      returns true), else the queue with the unvisited inputs pushed to its back.\<close>
  "enqueue_inputs val visited [] queue = Some queue"
| "enqueue_inputs val visited (inp # inps) queue =
     (if inp = val then None
      else enqueue_inputs val visited inps (if inp \<notin> visited then queue @ [inp] else queue))"

definition isRecursivelyDefined_step :: "Fusion \<Rightarrow> val_id \<Rightarrow> recursion_state \<Rightarrow> recursion_state" where
  "isRecursivelyDefined_step fusion val s =
     (case vals_to_visit s of
        [] \<Rightarrow> s
      | v # rest \<Rightarrow>
          let visited = insert v (visited_vals s)
          in (case val_definition (val_heap fusion v) of
                None \<Rightarrow> s\<lparr>vals_to_visit := rest, visited_vals := visited\<rparr>
              | Some v_def \<Rightarrow>
                  (case enqueue_inputs val visited (inputs (expr_heap fusion v_def)) rest of
                     None \<Rightarrow>
                       s\<lparr>vals_to_visit := rest, visited_vals := visited, rd_result := Some True\<rparr>
                   | Some queue \<Rightarrow> s\<lparr>vals_to_visit := queue, visited_vals := visited\<rparr>)))"

definition isRecursivelyDefined :: "Fusion \<Rightarrow> val_id \<Rightarrow> bool option" where
  "isRecursivelyDefined fusion val =
     map_option (\<lambda>s. case rd_result s of Some b \<Rightarrow> b | None \<Rightarrow> False)
       (while_option (\<lambda>s. rd_result s = None \<and> vals_to_visit s \<noteq> [])
          (isRecursivelyDefined_step fusion val)
          \<lparr>vals_to_visit = [val], visited_vals = {}, rd_result = None\<rparr>)"

section \<open>Predicates of the statements\<close>

text \<open>
  Well-formedness conditions, the dependency relations of the graph and the loop invariants
  that the theorems below are stated and proved with.
\<close>

definition sole_producer :: "Fusion \<Rightarrow> val_id \<Rightarrow> bool" where
  \<comment> \<open>Every registered expression that lists \<open>v\<close> among its outputs is the definition of \<open>v\<close>.\<close>
  "sole_producer f v \<longleftrightarrow>
     (\<forall>e\<in>set (exprs f). v \<in> set (outputs (expr_heap f e)) \<longrightarrow>
        val_definition (val_heap f v) = Some e)"

definition roles_flagged :: "Fusion \<Rightarrow> bool" where
  \<comment> \<open>The role flags are in step with the role lists: every declared input and every
      declared output carries its flag.\<close>
  "roles_flagged f \<longleftrightarrow>
     (\<forall>v\<in>set (fusion_inputs f). isFusionInput (val_heap f v)) \<and>
     (\<forall>v\<in>set (fusion_outputs f). isFusionOutput (val_heap f v))"



definition ignorable :: "Fusion \<Rightarrow> bool \<Rightarrow> val_id set \<Rightarrow> val_id \<Rightarrow> bool" where
  \<comment> \<open>The flag \<open>ignorable\<close> of the loop over the from-nodes.\<close>
  "ignorable f ignore_broadcast additional_ids_set v \<longleftrightarrow>
     (ignore_broadcast \<and> isBroadcast f v) \<or> v \<in> additional_ids_set"

definition next_rel :: "Fusion \<Rightarrow> (Statement \<times> Statement) set" where
  \<comment> \<open>The dependency graph: a value depends on its definition, an expression on its inputs.\<close>
  "next_rel f = {(a, b). b \<in> set (next_of f a)}"

definition open_rel :: "Fusion \<Rightarrow> Statement set \<Rightarrow> (Statement \<times> Statement) set" where
  \<comment> \<open>The dependencies between statements outside the boundary set.\<close>
  "open_rel f from = {(a, b). a \<notin> from \<and> b \<in> set (next_of f a) \<and> b \<notin> from}"

definition cc_path_inv :: "Fusion \<Rightarrow> Statement set \<Rightarrow> cycle_state \<Rightarrow> bool" where
  \<comment> \<open>Loop invariant of \<open>checkCycle\<close>: the path nodes are entered and unfinished, they are in
      the queue, and whatever stands in the queue before a path node depends on it.\<close>
  "cc_path_inv f from s \<longleftrightarrow>
     (cc_result s = None \<longrightarrow>
        (\<forall>n\<in>set (cc_path s). n \<notin> from \<and> n \<notin> cc_visited s \<and> next_of f n \<noteq> []) \<and>
        set (cc_path s) \<subseteq> set (cc_queue s) \<and>
        (\<forall>n\<in>set (cc_path s). \<forall>x\<in>set (takeWhile (\<lambda>y. y \<noteq> n) (cc_queue s)).
           (n, x) \<in> (next_rel f)\<^sup>+)) \<and>
     (\<forall>r. cc_result s = Some r \<longrightarrow> r \<noteq> [] \<and> (\<exists>m. (m, m) \<in> (next_rel f)\<^sup>+))"

definition cc_closure_inv :: "Fusion \<Rightarrow> Statement set \<Rightarrow> val_id list \<Rightarrow> cycle_state \<Rightarrow> bool" where
  \<comment> \<open>Loop invariant of \<open>checkCycle\<close>: the visited statements are closed under dependencies
      up to the boundary and lie on no cycle, the dependencies of a path node are visited,
      on the boundary or queued before it, and every target is visited, on the boundary or
      queued.\<close>
  "cc_closure_inv f from to s \<longleftrightarrow>
     (cc_result s = None \<longrightarrow>
        (\<forall>v\<in>cc_visited s. set (next_of f v) \<subseteq> cc_visited s \<union> from) \<and>
        (\<forall>n\<in>set (cc_path s).
           set (next_of f n) \<subseteq> cc_visited s \<union> from \<union> set (takeWhile (\<lambda>y. y \<noteq> n) (cc_queue s))) \<and>
        ValStmt ` set to \<subseteq> cc_visited s \<union> from \<union> set (cc_queue s) \<and>
        (\<forall>v\<in>cc_visited s. (v, v) \<notin> (open_rel f from)\<^sup>+))"

section \<open>Example containers\<close>

definition tensor_val :: Val where
  "tensor_val = \<lparr>valType = TensorView, isConst = False, val_definition = None, val_uses = [],
     isFusionInput = False, isFusionOutput = False, memoryType = Local, iterType = Iteration\<rparr>"

definition scalar_val :: Val where
  "scalar_val = tensor_val\<lparr>valType := Others\<rparr>"

definition output_val :: Val where
  "output_val = tensor_val\<lparr>isFusionOutput := True, memoryType := Global\<rparr>"

definition pipeline_val :: Val where
  "pipeline_val = tensor_val\<lparr>valType := PipelineVal\<rparr>"

definition iter_val :: Val where
  "iter_val = tensor_val\<lparr>valType := IterDomain\<rparr>"

definition nullary_expr :: Expr where
  "nullary_expr = \<lparr>inputs = [], outputs = [], attributes = [], expr_fusion = None\<rparr>"

definition empty_fusion :: Fusion where
  "empty_fusion = \<lparr>this_fusion = 0, is_kernel = False, val_heap = (\<lambda>_. tensor_val),
     expr_heap = (\<lambda>_. nullary_expr), vals = {}, exprs = [], fusion_inputs = [],
     fusion_outputs = [], io_alias = Map.empty, all_tv_uses_valid = True\<rparr>"

definition one_tensor_fusion :: Fusion where
  \<comment> \<open>A container owning the single tensor view 0, with no role yet.\<close>
  "one_tensor_fusion = empty_fusion\<lparr>vals := {0}\<rparr>"


definition pipeline_fusion :: Fusion where
  \<comment> \<open>The tensor view 0 is the only output; 1 is a pipeline value with no role.\<close>
  "pipeline_fusion = empty_fusion
     \<lparr>val_heap := (\<lambda>_. tensor_val)(0 := output_val, 1 := pipeline_val), vals := {0, 1},
      fusion_outputs := [0]\<rparr>"

definition two_outputs_fusion :: Fusion where
  \<comment> \<open>Tensor views 0, 1 and 2; 0 and 1 are the outputs.\<close>
  "two_outputs_fusion = empty_fusion
     \<lparr>val_heap := (\<lambda>_. tensor_val)(0 := output_val, 1 := output_val), vals := {0, 1, 2},
      fusion_outputs := [0, 1]\<rparr>"

definition redefine_fusion :: Fusion where
  \<comment> \<open>A scalar 0 and tensor views 1 and 2; the registered expression 1 reads 0 and 1 and
      defines 2; the expression 2, not yet registered, reads 0 and 1 and writes 2.\<close>
  "redefine_fusion = empty_fusion
     \<lparr>val_heap := (\<lambda>_. tensor_val)
        (0 := scalar_val\<lparr>val_uses := [1]\<rparr>, 1 := tensor_val\<lparr>val_uses := [1]\<rparr>,
         2 := tensor_val\<lparr>val_definition := Some 1\<rparr>),
      expr_heap := (\<lambda>_. nullary_expr)
        (1 := nullary_expr\<lparr>inputs := [0, 1], outputs := [2]\<rparr>,
         2 := nullary_expr\<lparr>inputs := [0, 1], outputs := [2]\<rparr>),
      vals := {0, 1, 2}, exprs := [1]\<rparr>"

definition dead_code_fusion :: Fusion where
  \<comment> \<open>Tensor views 0, 1, 2 and 3. Expression 1 defines 0; expression 2 reads 0 and defines
      1; expression 3 reads 0 and 1 and defines 2 but is in no use list (dead code);
      expression 4 defines 3 from nothing.\<close>
  "dead_code_fusion = empty_fusion
     \<lparr>val_heap := (\<lambda>_. tensor_val)
        (0 := tensor_val\<lparr>val_definition := Some 1, val_uses := [2]\<rparr>,
         1 := tensor_val\<lparr>val_definition := Some 2\<rparr>,
         2 := tensor_val\<lparr>val_definition := Some 3\<rparr>,
         3 := tensor_val\<lparr>val_definition := Some 4\<rparr>),
      expr_heap := (\<lambda>_. nullary_expr)
        (1 := nullary_expr\<lparr>outputs := [0]\<rparr>,
         2 := nullary_expr\<lparr>inputs := [0], outputs := [1]\<rparr>,
         3 := nullary_expr\<lparr>inputs := [0, 1], outputs := [2]\<rparr>,
         4 := nullary_expr\<lparr>outputs := [3]\<rparr>),
      vals := {0, 1, 2, 3}, exprs := [1, 2, 3, 4]\<rparr>"

definition kernel_fusion :: Fusion where
  \<comment> \<open>A kernel container owning the tensor view 0; the expressions 1 and 2, not yet
      registered, both write 0.\<close>
  "kernel_fusion = empty_fusion
     \<lparr>is_kernel := True, vals := {0},
      expr_heap := (\<lambda>_. nullary_expr)
        (1 := nullary_expr\<lparr>outputs := [0]\<rparr>, 2 := nullary_expr\<lparr>outputs := [0]\<rparr>)\<rparr>"

definition self_loop_fusion :: Fusion where
  \<comment> \<open>Value 0 is defined by expression 1, which reads 0 and 1; value 2 is defined by
      expression 2, which reads the leaf 3. The output is 2.\<close>
  "self_loop_fusion = empty_fusion
     \<lparr>val_heap := (\<lambda>_. tensor_val)
        (0 := tensor_val\<lparr>val_definition := Some 1\<rparr>, 2 := output_val\<lparr>val_definition := Some 2\<rparr>),
      expr_heap := (\<lambda>_. nullary_expr)
        (1 := nullary_expr\<lparr>inputs := [1, 0], outputs := [0]\<rparr>,
         2 := nullary_expr\<lparr>inputs := [3, 3], outputs := [2]\<rparr>),
      vals := {0, 1, 2, 3}, exprs := [1, 2], fusion_outputs := [2]\<rparr>"

definition split_fusion :: Fusion where
  \<comment> \<open>Iteration domains only; expression 1 splits the axis 0 into the axes 1 and 2.\<close>
  "split_fusion = empty_fusion
     \<lparr>val_heap := (\<lambda>_. iter_val),
      expr_heap := (\<lambda>_. nullary_expr)(1 := nullary_expr\<lparr>inputs := [0], outputs := [1, 2]\<rparr>),
      vals := {0, 1, 2}, exprs := [1]\<rparr>"

section \<open>Basic facts about the accessors\<close>

lemma update_val_simps [simp]:
  "val_heap (update_val f v g) = (val_heap f)(v := g (val_heap f v))"
  "expr_heap (update_val f v g) = expr_heap f"
  "vals (update_val f v g) = vals f"
  "exprs (update_val f v g) = exprs f"
  "fusion_inputs (update_val f v g) = fusion_inputs f"
  "fusion_outputs (update_val f v g) = fusion_outputs f"
  "io_alias (update_val f v g) = io_alias f"
  "all_tv_uses_valid (update_val f v g) = all_tv_uses_valid f"
  "is_kernel (update_val f v g) = is_kernel f"
  "this_fusion (update_val f v g) = this_fusion f"
  by (simp_all add: update_val_def)

lemma invalidateTvUses_simps [simp]:
  "val_heap (invalidateTvUses f) = val_heap f"
  "expr_heap (invalidateTvUses f) = expr_heap f"
  "vals (invalidateTvUses f) = vals f"
  "exprs (invalidateTvUses f) = exprs f"
  "fusion_inputs (invalidateTvUses f) = fusion_inputs f"
  "fusion_outputs (invalidateTvUses f) = fusion_outputs f"
  "io_alias (invalidateTvUses f) = io_alias f"
  "all_tv_uses_valid (invalidateTvUses f) = False"
  "is_kernel (invalidateTvUses f) = is_kernel f"
  "this_fusion (invalidateTvUses f) = this_fusion f"
  by (simp_all add: invalidateTvUses_def)

text \<open>The definitions of the example containers, for evaluating them.\<close>

lemmas example_defs = empty_fusion_def tensor_val_def scalar_val_def output_val_def
  nullary_expr_def

text \<open>The definitions to unfold when \<open>registerExpr\<close> is evaluated.\<close>

lemmas registerExpr_eval = registerExpr_def registerExpr_input_def registerExpr_output_def
  removeExpr_def inContainerExpr_def inContainerVal_def IrContainer_registerExpr_def
  IrContainer_removeExpr_def Let_def

text \<open>The definitions to unfold when \<open>checkCycle\<close> is evaluated.\<close>

lemmas checkCycle_eval = checkCycle_def checkCycle_outputs_def checkCycle_step_def
  while_option_unfold Let_def

section \<open>Registering an input\<close>

text \<open>
  C9. A value whose fusion-input flag is set cannot be added as an input: \<open>addInput\<close> fails.
  A successful \<open>addInput v\<close> appends \<open>v\<close> to the input list, sets its fusion-input flag,
  clears the "use-lists valid" flag, puts a tensor view into global memory, and makes an
  immediately following \<open>addInput v\<close> fail.
\<close>

theorem addInput_registers_once:
  "(isFusionInput (val_heap f v) \<longrightarrow> (\<exists>e. addInput f v = Inl e)) \<and>
   (addInput f v = Inr f' \<longrightarrow>
      (\<exists>e. addInput f' v = Inl e) \<and>
      fusion_inputs f' = fusion_inputs f @ [v] \<and>
      isFusionInput (val_heap f' v) \<and>
      \<not> all_tv_uses_valid f' \<and>
      (valType (val_heap f v) = TensorView \<longrightarrow> memoryType (val_heap f' v) = Global))"
  by (auto simp: addInput_def Let_def setMemoryType_def setIsFusionInput_def inContainerVal_def
           split: if_splits)

text \<open>
  The theorem at the container that owns one tensor view: the first \<open>addInput\<close> succeeds
  with the effects listed, the second one fails.
\<close>

theorem addInput_registers_once_witness:
  "\<exists>f'. addInput one_tensor_fusion 0 = Inr f' \<and> (\<exists>e. addInput f' 0 = Inl e) \<and>
        fusion_inputs f' = [0] \<and> isFusionInput (val_heap f' 0) \<and> \<not> all_tv_uses_valid f' \<and>
        memoryType (val_heap f' 0) = Global"
proof -
  obtain f' where ok: "addInput one_tensor_fusion 0 = Inr f'"
    by (simp add: addInput_def one_tensor_fusion_def empty_fusion_def tensor_val_def
          inContainerVal_def setMemoryType_def Let_def)
  have tv: "valType (val_heap one_tensor_fusion 0) = TensorView"
    and ins: "fusion_inputs one_tensor_fusion = []"
    by (simp_all add: one_tensor_fusion_def empty_fusion_def tensor_val_def)
  from addInput_registers_once [of one_tensor_fusion 0 f'] ok tv ins show ?thesis
    by auto
qed

section \<open>Replacing an output\<close>

text \<open>What a successful \<open>replaceOutput\<close> leaves behind, field by field.\<close>

lemma replaceOutput_Inr:
  assumes "replaceOutput f output replacement = Inr f'"
  shows "output \<in> set (fusion_outputs f)"
    and "fusion_outputs f' = map (\<lambda>v. if v = output then replacement else v) (fusion_outputs f)"
    and "\<not> all_tv_uses_valid f'"
    and "vals f' = vals f" and "exprs f' = exprs f" and "expr_heap f' = expr_heap f"
    and "\<And>x. valType (val_heap f' x) = valType (val_heap f x)"
    and "\<And>x. x \<noteq> output \<Longrightarrow> x \<noteq> replacement \<Longrightarrow> val_heap f' x = val_heap f x"
    and "valType (val_heap f output) = TensorView \<Longrightarrow>
           \<not> isFusionOutput (val_heap f' output) \<and> memoryType (val_heap f' output) = Local"
    and "valType (val_heap f output) \<noteq> TensorView \<Longrightarrow> replacement \<noteq> output \<Longrightarrow>
           val_heap f' output = val_heap f output"
    and "valType (val_heap f replacement) = TensorView \<Longrightarrow> replacement \<noteq> output \<Longrightarrow>
           isFusionOutput (val_heap f' replacement) \<and> memoryType (val_heap f' replacement) = Global"
    and "valType (val_heap f replacement) \<noteq> TensorView \<Longrightarrow> replacement \<noteq> output \<Longrightarrow>
           val_heap f' replacement = val_heap f replacement"
    and "\<And>info. io_alias f output = Some info \<Longrightarrow> io_alias f' replacement = Some info"
    and "io_alias f output = None \<Longrightarrow> io_alias f' = io_alias f"
    and "replacement \<noteq> output \<Longrightarrow> io_alias f' output = None"
  using assms
  by (auto simp: replaceOutput_def Let_def setMemoryType_def setIsFusionOutput_def
           split: if_splits option.splits)




section \<open>Removing expressions and values\<close>

lemma removeUse_simps [simp]:
  "val_heap (removeUse g v e) =
     (val_heap g)(v := (val_heap g v)\<lparr>val_uses := removeAll e (val_uses (val_heap g v))\<rparr>)"
  "expr_heap (removeUse g v e) = expr_heap g"
  "vals (removeUse g v e) = vals g"
  "exprs (removeUse g v e) = exprs g"
  "fusion_inputs (removeUse g v e) = fusion_inputs g"
  "fusion_outputs (removeUse g v e) = fusion_outputs g"
  "io_alias (removeUse g v e) = io_alias g"
  "is_kernel (removeUse g v e) = is_kernel g"
  "this_fusion (removeUse g v e) = this_fusion g"
  by (auto simp: removeUse_def Let_def fun_eq_iff)

lemma removeUse_valid: "all_tv_uses_valid (removeUse g v e) \<Longrightarrow> all_tv_uses_valid g"
  by (auto simp: removeUse_def Let_def split: if_splits)

lemma setDefinition_simps [simp]:
  "val_heap (setDefinition g v d) = (val_heap g)(v := (val_heap g v)\<lparr>val_definition := d\<rparr>)"
  "expr_heap (setDefinition g v d) = expr_heap g"
  "vals (setDefinition g v d) = vals g"
  "exprs (setDefinition g v d) = exprs g"
  "fusion_inputs (setDefinition g v d) = fusion_inputs g"
  "fusion_outputs (setDefinition g v d) = fusion_outputs g"
  "io_alias (setDefinition g v d) = io_alias g"
  "is_kernel (setDefinition g v d) = is_kernel g"
  "this_fusion (setDefinition g v d) = this_fusion g"
  "all_tv_uses_valid (setDefinition g v d) = all_tv_uses_valid g"
  by (simp_all add: setDefinition_def)

lemma fold_setDefinition:
  "val_heap (fold (\<lambda>out g. setDefinition g out None) outs f) v =
     (if v \<in> set outs then (val_heap f v)\<lparr>val_definition := None\<rparr> else val_heap f v)"
  "expr_heap (fold (\<lambda>out g. setDefinition g out None) outs f) = expr_heap f"
  "vals (fold (\<lambda>out g. setDefinition g out None) outs f) = vals f"
  "exprs (fold (\<lambda>out g. setDefinition g out None) outs f) = exprs f"
  "fusion_inputs (fold (\<lambda>out g. setDefinition g out None) outs f) = fusion_inputs f"
  "fusion_outputs (fold (\<lambda>out g. setDefinition g out None) outs f) = fusion_outputs f"
  "io_alias (fold (\<lambda>out g. setDefinition g out None) outs f) = io_alias f"
  "is_kernel (fold (\<lambda>out g. setDefinition g out None) outs f) = is_kernel f"
  "this_fusion (fold (\<lambda>out g. setDefinition g out None) outs f) = this_fusion f"
  "all_tv_uses_valid (fold (\<lambda>out g. setDefinition g out None) outs f) = all_tv_uses_valid f"
  by (induction outs arbitrary: f; simp)+

lemma fold_removeUse:
  "val_heap (fold (\<lambda>inp g. removeUse g inp e) ins f) v =
     (if v \<in> set ins then (val_heap f v)\<lparr>val_uses := removeAll e (val_uses (val_heap f v))\<rparr>
      else val_heap f v)"
  "expr_heap (fold (\<lambda>inp g. removeUse g inp e) ins f) = expr_heap f"
  "vals (fold (\<lambda>inp g. removeUse g inp e) ins f) = vals f"
  "exprs (fold (\<lambda>inp g. removeUse g inp e) ins f) = exprs f"
  "fusion_inputs (fold (\<lambda>inp g. removeUse g inp e) ins f) = fusion_inputs f"
  "fusion_outputs (fold (\<lambda>inp g. removeUse g inp e) ins f) = fusion_outputs f"
  "io_alias (fold (\<lambda>inp g. removeUse g inp e) ins f) = io_alias f"
  "is_kernel (fold (\<lambda>inp g. removeUse g inp e) ins f) = is_kernel f"
  "this_fusion (fold (\<lambda>inp g. removeUse g inp e) ins f) = this_fusion f"
  by (induction ins arbitrary: f; simp)+

lemma fold_removeUse_valid:
  "all_tv_uses_valid (fold (\<lambda>inp g. removeUse g inp e) ins f) \<Longrightarrow> all_tv_uses_valid f"
  by (induction ins arbitrary: f) (auto dest: removeUse_valid)

lemma removeExpr_Inr:
  assumes "removeExpr f e = Inr f'"
  shows "e \<in> set (exprs f)"
    and "exprs f' = removeAll e (exprs f)"
    and "expr_heap f' = expr_heap f"
    and "vals f' = vals f"
    and "is_kernel f' = is_kernel f"
    and "fusion_inputs f' = fusion_inputs f"
    and "fusion_outputs f' = fusion_outputs f"
    and "\<And>v. val_definition (val_heap f' v) =
           (if v \<in> set (outputs (expr_heap f e)) then None else val_definition (val_heap f v))"
    and "\<And>v. val_uses (val_heap f' v) =
           (if v \<in> set (inputs (expr_heap f e)) then removeAll e (val_uses (val_heap f v))
            else val_uses (val_heap f v))"
    and "\<And>v. valType (val_heap f' v) = valType (val_heap f v)"
    and "\<And>v. isFusionInput (val_heap f' v) = isFusionInput (val_heap f v)"
    and "\<And>v. isFusionOutput (val_heap f' v) = isFusionOutput (val_heap f v)"
    and "all_tv_uses_valid f' \<Longrightarrow> all_tv_uses_valid f"
proof -
  let ?f1 = "fold (\<lambda>out g. setDefinition g out None) (outputs (expr_heap f e)) f"
  let ?f2 = "fold (\<lambda>inp g. removeUse g inp e) (inputs (expr_heap f e)) ?f1"
  from assms have mem: "e \<in> set (exprs f)" and f': "f' = IrContainer_removeExpr ?f2 e"
    by (auto simp: removeExpr_def inContainerExpr_def Let_def split: if_splits)
  show "e \<in> set (exprs f)" by (rule mem)
  show "exprs f' = removeAll e (exprs f)" "expr_heap f' = expr_heap f" "vals f' = vals f"
    "is_kernel f' = is_kernel f" "fusion_inputs f' = fusion_inputs f"
    "fusion_outputs f' = fusion_outputs f"
    by (simp_all add: f' IrContainer_removeExpr_def fold_removeUse fold_setDefinition)
  have heap: "val_heap f' = val_heap ?f2" by (simp add: f' IrContainer_removeExpr_def)
  fix v
  show "val_definition (val_heap f' v) =
           (if v \<in> set (outputs (expr_heap f e)) then None else val_definition (val_heap f v))"
    "val_uses (val_heap f' v) =
           (if v \<in> set (inputs (expr_heap f e)) then removeAll e (val_uses (val_heap f v))
            else val_uses (val_heap f v))"
    "valType (val_heap f' v) = valType (val_heap f v)"
    "isFusionInput (val_heap f' v) = isFusionInput (val_heap f v)"
    "isFusionOutput (val_heap f' v) = isFusionOutput (val_heap f v)"
    by (simp_all add: heap fold_removeUse fold_setDefinition)
next
  assume "all_tv_uses_valid f'"
  with assms show "all_tv_uses_valid f"
    by (auto simp: removeExpr_def inContainerExpr_def Let_def IrContainer_removeExpr_def
          fold_setDefinition split: if_splits dest!: fold_removeUse_valid)
qed

lemma filter_removeAll:
  "filter (\<lambda>x. x \<notin> set es) (removeAll e xs) = filter (\<lambda>x. x \<notin> set (e # es)) xs"
  by (induction xs) auto

lemma foldM_removeExpr_Inr:
  "foldM (\<lambda>e g. removeExpr g e) es f = Inr f' \<Longrightarrow>
     exprs f' = filter (\<lambda>x. x \<notin> set es) (exprs f) \<and> expr_heap f' = expr_heap f \<and>
     vals f' = vals f"
proof (induction es arbitrary: f)
  case Nil
  then show ?case by simp
next
  case (Cons e es)
  from Cons.prems obtain f1 where step: "removeExpr f e = Inr f1"
    and rest: "foldM (\<lambda>e g. removeExpr g e) es f1 = Inr f'"
    by (auto split: sum.splits)
  from Cons.IH [OF rest] removeExpr_Inr(2,3,4) [OF step] filter_removeAll [of es e "exprs f"]
  show ?case by simp
qed

text \<open>
  C2 (as amended). \<open>removeVal v\<close> fails when the fusion-input flag or the fusion-output
  flag of \<open>v\<close> is set; the function tests the flags, not the input and output lists, so a
  declared input or output makes it fail in a container whose lists and flags are in step.
  A successful \<open>removeVal v\<close> removes the definition of \<open>v\<close> (if any) and every
  expression of the container that has \<open>v\<close> among its inputs, so that no remaining
  expression has \<open>v\<close> among its inputs; no remaining expression has \<open>v\<close> among its outputs
  either, provided that before the call every registered expression with \<open>v\<close> among its
  outputs was the definition of \<open>v\<close>. The value itself leaves the container.
\<close>

theorem removeVal_detaches_value:
  "((isFusionInput (val_heap f v) \<or> isFusionOutput (val_heap f v)) \<longrightarrow>
      (\<exists>e. removeVal f v = Inl e)) \<and>
   (roles_flagged f \<and> (v \<in> set (fusion_inputs f) \<or> v \<in> set (fusion_outputs f)) \<longrightarrow>
      (\<exists>e. removeVal f v = Inl e)) \<and>
   (removeVal f v = Inr f' \<longrightarrow>
      (\<forall>d. val_definition (val_heap f v) = Some d \<longrightarrow> \<not> inContainerExpr f' d) \<and>
      (\<forall>e\<in>set (exprs f). v \<in> set (inputs (expr_heap f e)) \<longrightarrow> \<not> inContainerExpr f' e) \<and>
      (\<forall>e\<in>set (exprs f'). v \<notin> set (inputs (expr_heap f' e))) \<and>
      (sole_producer f v \<longrightarrow> (\<forall>e\<in>set (exprs f'). v \<notin> set (outputs (expr_heap f' e)))) \<and>
      \<not> inContainerVal f' v)"
proof (intro conjI impI)
  assume "isFusionInput (val_heap f v) \<or> isFusionOutput (val_heap f v)"
  then show "\<exists>e. removeVal f v = Inl e"
    by (auto simp: removeVal_def)
next
  assume "roles_flagged f \<and> (v \<in> set (fusion_inputs f) \<or> v \<in> set (fusion_outputs f))"
  then have "isFusionInput (val_heap f v) \<or> isFusionOutput (val_heap f v)"
    by (auto simp: roles_flagged_def)
  then show "\<exists>e. removeVal f v = Inl e"
    by (auto simp: removeVal_def)
next
  assume ok: "removeVal f v = Inr f'"
  define f1 where "f1 = (case val_definition (val_heap f v) of
      Some orig \<Rightarrow> removeExpr f orig | None \<Rightarrow> Inr f)"
  from ok obtain g1 where g1: "f1 = Inr g1"
    by (auto simp: removeVal_def f1_def split: if_splits sum.splits)
  define es where "es = filter (\<lambda>e. inContainerExpr g1 e \<and> v \<in> set (inputs (expr_heap g1 e)))
      (exprs g1)"
  from ok g1 obtain g2 where g2: "foldM (\<lambda>e g. removeExpr g e) es g1 = Inr g2"
    and f': "f' = IrContainer_removeVal g2 v"
    by (auto simp: removeVal_def f1_def es_def Let_def split: if_splits sum.splits)
  have heap1: "expr_heap g1 = expr_heap f"
    and ex1: "exprs g1 = (case val_definition (val_heap f v) of
          Some d \<Rightarrow> removeAll d (exprs f) | None \<Rightarrow> exprs f)"
    using g1 removeExpr_Inr(2,3) by (auto simp: f1_def split: option.splits)
  from foldM_removeExpr_Inr [OF g2]
  have ex2: "exprs g2 = filter (\<lambda>x. x \<notin> set es) (exprs g1)"
    and heap2: "expr_heap g2 = expr_heap g1" by simp_all
  have ex': "exprs f' = exprs g2" and heap': "expr_heap f' = expr_heap f"
    by (simp_all add: f' IrContainer_removeVal_def heap2 heap1)
  have sub: "set (exprs f') \<subseteq> set (exprs f)"
    by (auto simp: ex' ex2 ex1 split: option.splits)
  show "\<forall>d. val_definition (val_heap f v) = Some d \<longrightarrow> \<not> inContainerExpr f' d"
    by (auto simp: inContainerExpr_def ex' ex2 ex1)
  show in_gone: "\<forall>e\<in>set (exprs f'). v \<notin> set (inputs (expr_heap f' e))"
    by (auto simp: ex' ex2 es_def inContainerExpr_def heap' heap1)
  then show "\<forall>e\<in>set (exprs f). v \<in> set (inputs (expr_heap f e)) \<longrightarrow> \<not> inContainerExpr f' e"
    by (auto simp: inContainerExpr_def heap')
  show "\<not> inContainerVal f' v"
    by (simp add: f' IrContainer_removeVal_def inContainerVal_def)
  { assume sp: "sole_producer f v"
    show "\<forall>e\<in>set (exprs f'). v \<notin> set (outputs (expr_heap f' e))"
    proof (intro ballI notI)
      fix e assume e: "e \<in> set (exprs f')" and out: "v \<in> set (outputs (expr_heap f' e))"
      from e sub have "e \<in> set (exprs f)" by blast
      with sp out have "val_definition (val_heap f v) = Some e"
        by (simp add: sole_producer_def heap')
      with e show False by (simp add: ex' ex2 ex1)
    qed }
qed

text \<open>
  The theorem at a container with a live and a dead consumer of the value 0, and at a
  container where 0 is a declared and flagged output.
\<close>

theorem removeVal_detaches_value_witness:
  "sole_producer dead_code_fusion 0 \<and>
   (\<exists>f'. removeVal dead_code_fusion 0 = Inr f' \<and>
         \<not> inContainerExpr f' 1 \<and> \<not> inContainerExpr f' 2 \<and> \<not> inContainerExpr f' 3 \<and>
         exprs f' = [4] \<and> 0 \<notin> set (inputs (expr_heap f' 4)) \<and>
         0 \<notin> set (outputs (expr_heap f' 4)) \<and> \<not> inContainerVal f' 0) \<and>
   roles_flagged two_outputs_fusion \<and> 0 \<in> set (fusion_outputs two_outputs_fusion) \<and>
   (\<exists>e. removeVal two_outputs_fusion 0 = Inl e)"
proof -
  have sp: "sole_producer dead_code_fusion 0"
    by (simp add: sole_producer_def dead_code_fusion_def example_defs)
  obtain f' where ok: "removeVal dead_code_fusion 0 = Inr f'"
    by (simp add: removeVal_def removeExpr_def inContainerExpr_def inContainerVal_def
          IrContainer_removeExpr_def Let_def dead_code_fusion_def example_defs)
  have ex: "exprs f' = [4]"
    using ok
    by (auto simp: removeVal_def removeExpr_def inContainerExpr_def inContainerVal_def
          IrContainer_removeExpr_def IrContainer_removeVal_def Let_def dead_code_fusion_def
          example_defs)
  have pre: "val_definition (val_heap dead_code_fusion 0) = Some 1"
    "2 \<in> set (exprs dead_code_fusion)" "0 \<in> set (inputs (expr_heap dead_code_fusion 2))"
    "3 \<in> set (exprs dead_code_fusion)" "0 \<in> set (inputs (expr_heap dead_code_fusion 3))"
    by (simp_all add: dead_code_fusion_def example_defs)
  have role: "roles_flagged two_outputs_fusion" "0 \<in> set (fusion_outputs two_outputs_fusion)"
    by (simp_all add: roles_flagged_def two_outputs_fusion_def example_defs)
  from removeVal_detaches_value [of dead_code_fusion 0 f'] ok sp pre ex
  have "\<not> inContainerExpr f' 1 \<and> \<not> inContainerExpr f' 2 \<and> \<not> inContainerExpr f' 3 \<and>
         0 \<notin> set (inputs (expr_heap f' 4)) \<and>
         0 \<notin> set (outputs (expr_heap f' 4)) \<and> \<not> inContainerVal f' 0"
    by simp
  moreover from removeVal_detaches_value [of two_outputs_fusion 0] role
  have "\<exists>e. removeVal two_outputs_fusion 0 = Inl e" by blast
  ultimately show ?thesis using sp ok ex role by blast
qed

text \<open>
  Membership of the output list alone does not make \<open>removeVal\<close> fail. \<open>replaceOutput\<close>
  flags a replacement only if it is a tensor view, so after the tensor-view output 0 has
  been replaced by the pipeline value 1, the value 1 is a declared output whose flag is not
  set; \<open>removeVal\<close> then removes it from the container and leaves it in the output list.

  Without the proviso on the producers of \<open>v\<close> the statement about outputs fails as well.
  In a kernel container two registered expressions may write the same value; the
  definition pointer stays on the first. \<open>removeVal\<close> then removes the first and leaves the
  second in the container, with the removed value among its outputs.
\<close>

theorem removeVal_unflagged_output_and_second_producer_counterexample:
  "(\<exists>f1 f2. replaceOutput pipeline_fusion 0 1 = Inr f1 \<and> 1 \<in> set (fusion_outputs f1) \<and>
      removeVal f1 1 = Inr f2 \<and> 1 \<in> set (fusion_outputs f2) \<and> \<not> inContainerVal f2 1) \<and>
   (\<exists>f1 f2 f3. registerExpr kernel_fusion 1 = Inr f1 \<and> registerExpr f1 2 = Inr f2 \<and>
      removeVal f2 0 = Inr f3 \<and> inContainerExpr f3 2 \<and> 0 \<in> set (outputs (expr_heap f3 2)))"
proof
  show "\<exists>f1 f2. replaceOutput pipeline_fusion 0 1 = Inr f1 \<and> 1 \<in> set (fusion_outputs f1) \<and>
      removeVal f1 1 = Inr f2 \<and> 1 \<in> set (fusion_outputs f2) \<and> \<not> inContainerVal f2 1"
    by (simp add: replaceOutput_def removeVal_def pipeline_fusion_def pipeline_val_def
          example_defs Let_def setMemoryType_def setIsFusionOutput_def invalidateTvUses_def
          update_val_def inContainerVal_def inContainerExpr_def IrContainer_removeVal_def)
  show "\<exists>f1 f2 f3. registerExpr kernel_fusion 1 = Inr f1 \<and> registerExpr f1 2 = Inr f2 \<and>
      removeVal f2 0 = Inr f3 \<and> inContainerExpr f3 2 \<and> 0 \<in> set (outputs (expr_heap f3 2))"
    by (simp add: registerExpr_eval removeVal_def kernel_fusion_def example_defs setDefinition_def
          invalidateTvUses_def update_val_def IrContainer_removeVal_def)
qed

section \<open>Registering an expression\<close>

lemma addUse_simps [simp]:
  "val_heap (addUse g v e) = (val_heap g)(v := (val_heap g v)\<lparr>val_uses := val_uses (val_heap g v) @ [e]\<rparr>)"
  "expr_heap (addUse g v e) = expr_heap g"
  "vals (addUse g v e) = vals g"
  "exprs (addUse g v e) = exprs g"
  "is_kernel (addUse g v e) = is_kernel g"
  "all_tv_uses_valid (addUse g v e) = all_tv_uses_valid g"
  by (simp_all add: addUse_def)










section \<open>Whole-graph replacement and the output list\<close>

lemma replaceValue_outputs_Cons:
  "replaceValue_outputs ((a, b) # m) f =
     (case (if isFusionOutput (val_heap f a) then replaceOutput f a b else Inr f) of
        Inl e \<Rightarrow> Inl e | Inr f1 \<Rightarrow> replaceValue_outputs m f1)"
  unfolding replaceValue_outputs_def by simp

lemma replaceValue_outputs_Nil: "replaceValue_outputs [] f = Inr f"
  by (simp add: replaceValue_outputs_def)

lemma replaceValue_outputs_valType:
  "replaceValue_outputs m f = Inr f' \<Longrightarrow> valType (val_heap f' x) = valType (val_heap f x)"
proof (induction m arbitrary: f)
  case Nil
  then show ?case by (simp add: replaceValue_outputs_Nil)
next
  case (Cons p m)
  obtain a b where p: "p = (a, b)" by (cases p)
  from Cons.prems obtain f1 where
    step: "(if isFusionOutput (val_heap f a) then replaceOutput f a b else Inr f) = Inr f1"
    and rest: "replaceValue_outputs m f1 = Inr f'"
    by (auto simp: p replaceValue_outputs_Cons split: sum.splits)
  have "valType (val_heap f1 x) = valType (val_heap f x)"
    using step replaceOutput_Inr(7) by (auto split: if_splits)
  with Cons.IH [OF rest] show ?case by simp
qed

text \<open>A value that is no key of the remaining map stays in the output list.\<close>

lemma replaceValue_outputs_keeps:
  "replaceValue_outputs m f = Inr f' \<Longrightarrow> n \<in> set (fusion_outputs f) \<Longrightarrow> n \<notin> fst ` set m
     \<Longrightarrow> n \<in> set (fusion_outputs f')"
proof (induction m arbitrary: f)
  case Nil
  then show ?case by (simp add: replaceValue_outputs_Nil)
next
  case (Cons p m)
  obtain a b where p: "p = (a, b)" by (cases p)
  from Cons.prems obtain f1 where
    step: "(if isFusionOutput (val_heap f a) then replaceOutput f a b else Inr f) = Inr f1"
    and rest: "replaceValue_outputs m f1 = Inr f'"
    by (auto simp: p replaceValue_outputs_Cons split: sum.splits)
  from Cons.prems(3) have na: "n \<noteq> a" and nm: "n \<notin> fst ` set m" by (auto simp: p)
  have "n \<in> set (fusion_outputs f1)"
  proof (cases "isFusionOutput (val_heap f a)")
    case True
    with step have "replaceOutput f a b = Inr f1" by simp
    from replaceOutput_Inr(2) [OF this] Cons.prems(2) na show ?thesis by force
  next
    case False
    with step Cons.prems(2) show ?thesis by simp
  qed
  from Cons.IH [OF rest this nm] show ?case .
qed

text \<open>A value that is no replacement of the remaining map does not enter the output list
  and does not get its output flag set.\<close>

lemma replaceValue_outputs_stays_out:
  "replaceValue_outputs m f = Inr f' \<Longrightarrow> x \<notin> snd ` set m \<Longrightarrow>
     (x \<notin> set (fusion_outputs f) \<longrightarrow> x \<notin> set (fusion_outputs f')) \<and>
     (\<not> isFusionOutput (val_heap f x) \<longrightarrow> \<not> isFusionOutput (val_heap f' x))"
proof (induction m arbitrary: f)
  case Nil
  then show ?case by (simp add: replaceValue_outputs_Nil)
next
  case (Cons p m)
  obtain a b where p: "p = (a, b)" by (cases p)
  from Cons.prems obtain f1 where
    step: "(if isFusionOutput (val_heap f a) then replaceOutput f a b else Inr f) = Inr f1"
    and rest: "replaceValue_outputs m f1 = Inr f'"
    by (auto simp: p replaceValue_outputs_Cons split: sum.splits)
  from Cons.prems(2) have xb: "x \<noteq> b" and xm: "x \<notin> snd ` set m" by (auto simp: p)
  have "(x \<notin> set (fusion_outputs f) \<longrightarrow> x \<notin> set (fusion_outputs f1)) \<and>
        (\<not> isFusionOutput (val_heap f x) \<longrightarrow> \<not> isFusionOutput (val_heap f1 x))"
  proof (cases "isFusionOutput (val_heap f a)")
    case True
    with step have ro: "replaceOutput f a b = Inr f1" by simp
    have "x \<notin> set (fusion_outputs f) \<Longrightarrow> x \<notin> set (fusion_outputs f1)"
      using replaceOutput_Inr(2) [OF ro] xb by auto
    moreover have "\<not> isFusionOutput (val_heap f x) \<Longrightarrow> \<not> isFusionOutput (val_heap f1 x)"
    proof -
      assume nf: "\<not> isFusionOutput (val_heap f x)"
      with True have "x \<noteq> a" by auto
      with replaceOutput_Inr(8) [OF ro, of x] xb nf show ?thesis by simp
    qed
    ultimately show ?thesis by blast
  next
    case False
    with step show ?thesis by simp
  qed
  with Cons.IH [OF rest xm] show ?case by blast
qed

text \<open>
  C7 (as amended). Let the replacement map have no value that is both a key and a
  replacement. When the whole-graph replacement succeeds, every mapped old value whose
  fusion-output flag is set after the traversal (state \<open>f1\<close>) has its mapped value in the
  final output list and is itself no longer in it; if the old value is a tensor view, its
  fusion-output flag is cleared.
\<close>

theorem replaceValue_migrates_outputs:
  assumes "distinct (map fst replacement_map)"
    and "snd ` set replacement_map \<inter> fst ` set replacement_map = {}"
    and "replaceValue more_stmts dispatchMutate fusion replacement_map = Inr f'"
    and "foldM dispatchMutate more_stmts fusion = Inr f1"
    and "(old_v, new_v) \<in> set replacement_map"
    and "isFusionOutput (val_heap f1 old_v)"
  shows "new_v \<in> set (fusion_outputs f') \<and> old_v \<notin> set (fusion_outputs f') \<and>
         (valType (val_heap f1 old_v) = TensorView \<longrightarrow> \<not> isFusionOutput (val_heap f' old_v))"
proof -
  from assms(3,4) have run: "replaceValue_outputs replacement_map f1 = Inr f'"
    by (simp add: replaceValue_def)
  from assms(1,2,5,6) run show ?thesis
  proof (induction replacement_map arbitrary: f1)
    case Nil
    then show ?case by simp
  next
    case (Cons p m)
    obtain a b where p: "p = (a, b)" by (cases p)
    from Cons.prems(5) obtain f2 where
      step: "(if isFusionOutput (val_heap f1 a) then replaceOutput f1 a b else Inr f1) = Inr f2"
      and rest: "replaceValue_outputs m f2 = Inr f'"
      by (auto simp: p replaceValue_outputs_Cons split: sum.splits)
    from Cons.prems(1) have dm: "distinct (map fst m)" and am: "a \<notin> fst ` set m"
      by (auto simp: p)
    from Cons.prems(2) have disj: "snd ` set m \<inter> fst ` set m = {}"
      and bm: "b \<notin> fst ` set m" and ab: "a \<noteq> b" and asnd: "a \<notin> snd ` set m"
      by (auto simp: p)
    show ?case
    proof (cases "(old_v, new_v) = (a, b)")
      case True
      then have eq: "old_v = a" "new_v = b" by simp_all
      with Cons.prems(4) step have ro: "replaceOutput f1 a b = Inr f2" by simp
      have "b \<in> set (fusion_outputs f2)"
        using replaceOutput_Inr(1,2) [OF ro] by force
      from replaceValue_outputs_keeps [OF rest this bm]
      have 1: "new_v \<in> set (fusion_outputs f')" by (simp add: eq)
      have "a \<notin> set (fusion_outputs f2)"
        using replaceOutput_Inr(2) [OF ro] ab by auto
      with replaceValue_outputs_stays_out [OF rest asnd]
      have 2: "old_v \<notin> set (fusion_outputs f')" by (simp add: eq)
      have 3: "\<not> isFusionOutput (val_heap f' old_v)" if "valType (val_heap f1 old_v) = TensorView"
        using replaceOutput_Inr(9) [OF ro] that replaceValue_outputs_stays_out [OF rest asnd]
        by (simp add: eq)
      from 1 2 3 show ?thesis by blast
    next
      case False
      with Cons.prems(3) have mem: "(old_v, new_v) \<in> set m" by (auto simp: p)
      then have oa: "old_v \<noteq> a" using am by force
      have flag: "isFusionOutput (val_heap f2 old_v)"
      proof (cases "isFusionOutput (val_heap f1 a)")
        case True
        with step have ro: "replaceOutput f1 a b = Inr f2" by simp
        show ?thesis
        proof (cases "old_v = b")
          case True
          with mem bm show ?thesis by force
        next
          case False
          with replaceOutput_Inr(8) [OF ro, of old_v] oa Cons.prems(4) show ?thesis by simp
        qed
      next
        case False
        with step Cons.prems(4) show ?thesis by simp
      qed
      have vt: "valType (val_heap f2 old_v) = valType (val_heap f1 old_v)"
        using step replaceOutput_Inr(7) by (auto split: if_splits)
      from Cons.IH [OF dm disj mem flag rest] vt show ?thesis by simp
    qed
  qed
qed

text \<open>
  The theorem at a container with outputs 0 and 1, an empty traversal and the map
  \<open>0 \<mapsto> 2\<close>.
\<close>

theorem replaceValue_migrates_outputs_witness:
  "\<exists>f'. replaceValue [] (\<lambda>_ g. Inr g) two_outputs_fusion [(0, 2)] = Inr f' \<and>
        2 \<in> set (fusion_outputs f') \<and> 0 \<notin> set (fusion_outputs f') \<and>
        \<not> isFusionOutput (val_heap f' 0)"
proof -
  obtain f' where ok: "replaceValue [] (\<lambda>_ g. Inr g) two_outputs_fusion [(0, 2)] = Inr f'"
    by (simp add: replaceValue_def replaceValue_outputs_def replaceOutput_def
          two_outputs_fusion_def example_defs Let_def)
  have pre: "distinct (map fst [(0::nat, 2::nat)])"
    "snd ` set [(0::nat, 2::nat)] \<inter> fst ` set [(0, 2)] = {}"
    "foldM (\<lambda>_ g. Inr g) [] two_outputs_fusion = Inr two_outputs_fusion"
    "(0::nat, 2::nat) \<in> set [(0, 2)]"
    "isFusionOutput (val_heap two_outputs_fusion 0)"
    "valType (val_heap two_outputs_fusion 0) = TensorView"
    by (simp_all add: two_outputs_fusion_def example_defs)
  from replaceValue_migrates_outputs [OF pre(1,2) ok pre(3,4,5)] pre(6) ok
  show ?thesis by blast
qed

text \<open>
  Without the condition on the map the statement fails, for instance on the chained map
  \<open>0 \<mapsto> 1, 1 \<mapsto> 2\<close> over the outputs 0 and 1, in either iteration order of the map. Visiting \<open>0 \<mapsto> 1\<close> first leaves the output list
  \<open>[2, 2]\<close>, without the value 1 that 0 is mapped to; visiting \<open>1 \<mapsto> 2\<close> first leaves the
  old value 1 in the output list with its fusion-output flag set.
\<close>

theorem replaceValue_chained_map_counterexample:
  "(\<exists>f'. replaceValue [] (\<lambda>_ g. Inr g) two_outputs_fusion [(0, 1), (1, 2)] = Inr f' \<and>
         fusion_outputs f' = [2, 2] \<and> 1 \<notin> set (fusion_outputs f')) \<and>
   (\<exists>f'. replaceValue [] (\<lambda>_ g. Inr g) two_outputs_fusion [(1, 2), (0, 1)] = Inr f' \<and>
         fusion_outputs f' = [1, 2] \<and> isFusionOutput (val_heap f' 1))"
  by (simp add: replaceValue_def replaceValue_outputs_def replaceOutput_def
        two_outputs_fusion_def example_defs Let_def setMemoryType_def setIsFusionOutput_def
        invalidateTvUses_def)

section \<open>Single-value substitution\<close>

lemma fold_max_ge: "(x::nat) \<le> fold max xs x \<and> (\<forall>y\<in>set xs. y \<le> fold max xs x)"
proof (induction xs arbitrary: x)
  case Nil
  then show ?case by simp
next
  case (Cons a xs)
  from Cons.IH [of "max a x"] show ?case by auto
qed

lemma fresh_expr_new: "fresh_expr f expr \<noteq> expr" "fresh_expr f expr \<notin> set (exprs f)"
  using fold_max_ge [of expr "exprs f"] by (auto simp: fresh_expr_def)

text \<open>
  C8. If the reference value is not among the inputs of the expression,
  \<open>replaceValInExprInputs\<close> returns the very same expression and leaves the heap alone. If it
  is, the function returns a new expression object (neither the original nor one registered
  in the container) whose inputs are the original inputs with the reference replaced by the
  substitute at every position and every other input unchanged, with the original outputs
  and attributes; the original expression object is unchanged.
\<close>

theorem replaceValInExprInputs_substitutes:
  "(reference \<notin> set (inputs (expr_heap f expr)) \<longrightarrow>
      replaceValInExprInputs f expr reference substitute = Inr (expr, f)) \<and>
   (reference \<in> set (inputs (expr_heap f expr)) \<longrightarrow>
      (\<exists>expr_new f'. replaceValInExprInputs f expr reference substitute = Inr (expr_new, f') \<and>
         expr_new \<noteq> expr \<and> \<not> inContainerExpr f expr_new \<and>
         inputs (expr_heap f' expr_new) =
           map (\<lambda>v. if v = reference then substitute else v) (inputs (expr_heap f expr)) \<and>
         outputs (expr_heap f' expr_new) = outputs (expr_heap f expr) \<and>
         attributes (expr_heap f' expr_new) = attributes (expr_heap f expr) \<and>
         expr_heap f' expr = expr_heap f expr))"
proof (intro conjI impI)
  assume "reference \<notin> set (inputs (expr_heap f expr))"
  then have "\<forall>v\<in>set (inputs (expr_heap f expr)). [reference \<mapsto> substitute] v = None"
    by auto
  then show "replaceValInExprInputs f expr reference substitute = Inr (expr, f)"
    by (simp add: replaceValInExprInputs_def subsitute_def OptOutMutator_mutate_def)
next
  assume mem: "reference \<in> set (inputs (expr_heap f expr))"
  then have "\<not> (\<forall>v\<in>set (inputs (expr_heap f expr)). [reference \<mapsto> substitute] v = None)"
    by auto
  moreover have "map (\<lambda>v. case [reference \<mapsto> substitute] v of Some w \<Rightarrow> w | None \<Rightarrow> v) xs =
      map (\<lambda>v. if v = reference then substitute else v) xs" for xs
    by (induction xs) auto
  ultimately show "\<exists>expr_new f'.
      replaceValInExprInputs f expr reference substitute = Inr (expr_new, f') \<and>
         expr_new \<noteq> expr \<and> \<not> inContainerExpr f expr_new \<and>
         inputs (expr_heap f' expr_new) =
           map (\<lambda>v. if v = reference then substitute else v) (inputs (expr_heap f expr)) \<and>
         outputs (expr_heap f' expr_new) = outputs (expr_heap f expr) \<and>
         attributes (expr_heap f' expr_new) = attributes (expr_heap f expr) \<and>
         expr_heap f' expr = expr_heap f expr"
    using fresh_expr_new [of f expr]
    by (simp add: replaceValInExprInputs_def subsitute_def OptOutMutator_mutate_def Let_def
          inContainerExpr_def)
qed

text \<open>
  The theorem at the container with the expression 2 that reads 0 and 1: substituting for
  the value 2, which it does not read, and for the value 0, which it does.
\<close>

theorem replaceValInExprInputs_substitutes_witness:
  "replaceValInExprInputs redefine_fusion 2 2 5 = Inr (2, redefine_fusion) \<and>
   (\<exists>expr_new f'. replaceValInExprInputs redefine_fusion 2 0 5 = Inr (expr_new, f') \<and>
      expr_new \<noteq> 2 \<and> \<not> inContainerExpr redefine_fusion expr_new \<and>
      inputs (expr_heap f' expr_new) = [5, 1] \<and> outputs (expr_heap f' expr_new) = [2] \<and>
      expr_heap f' 2 = expr_heap redefine_fusion 2)"
proof -
  have ins: "inputs (expr_heap redefine_fusion 2) = [0, 1]"
    and outs: "outputs (expr_heap redefine_fusion 2) = [2]"
    by (simp_all add: redefine_fusion_def example_defs)
  from replaceValInExprInputs_substitutes [of 2 redefine_fusion 2 5] ins
  have 1: "replaceValInExprInputs redefine_fusion 2 2 5 = Inr (2, redefine_fusion)" by simp
  from replaceValInExprInputs_substitutes [of 0 redefine_fusion 2 5] ins outs
  have 2: "\<exists>expr_new f'. replaceValInExprInputs redefine_fusion 2 0 5 = Inr (expr_new, f') \<and>
      expr_new \<noteq> 2 \<and> \<not> inContainerExpr redefine_fusion expr_new \<and>
      inputs (expr_heap f' expr_new) = [5, 1] \<and> outputs (expr_heap f' expr_new) = [2] \<and>
      expr_heap f' 2 = expr_heap redefine_fusion 2" by auto
  from 1 2 show ?thesis by blast
qed

section \<open>The domain comparator\<close>

lemma foldM_append:
  "foldM step (xs @ ys) s = (case foldM step xs s of Inl e \<Rightarrow> Inl e | Inr s' \<Rightarrow> foldM step ys s')"
  by (induction xs arbitrary: s) (auto split: sum.splits)

text \<open>The loop over the to-nodes: every one outside the additional ids must be new.\<close>

lemma foldM_insert_to_Inr:
  "foldM (insert_to expr add) to frontier = Inr fr' \<longleftrightarrow>
     distinct (filter (\<lambda>v. v \<notin> add) to) \<and>
     set (filter (\<lambda>v. v \<notin> add) to) \<inter> set frontier = {} \<and>
     fr' = frontier @ filter (\<lambda>v. v \<notin> add) to"
proof (induction to arbitrary: frontier)
  case Nil
  then show ?case by auto
next
  case (Cons v to)
  show ?case
  proof (cases "v \<in> add")
    case True
    with Cons.IH [of frontier] show ?thesis by (simp add: insert_to_def)
  next
    case False
    show ?thesis
    proof (cases "v \<in> set frontier")
      case True
      with False show ?thesis by (auto simp: insert_to_def)
    next
      case nf: False
      with False Cons.IH [of "frontier @ [v]"] show ?thesis
        by (auto simp: insert_to_def)
    qed
  qed
qed

lemma foldM_insert_to_Inl:
  "foldM (insert_to expr add) to frontier = Inl e \<Longrightarrow>
     \<exists>v\<in>set to. v \<notin> add \<and> e = InvalidDerivedDomainOutput expr v"
proof (induction to arbitrary: frontier)
  case Nil
  then show ?case by simp
next
  case (Cons v to)
  then show ?case
    by (auto simp: insert_to_def split: if_splits)
qed

text \<open>The loop over the from-nodes: every one that is not ignorable must be in the
  frontier, and only once among the from-nodes.\<close>

lemma foldM_erase_from_Inr:
  "foldM (erase_from f ib expr add) from fr = Inr fr' \<longleftrightarrow>
     (\<forall>v\<in>set from. ignorable f ib add v \<or> (v \<in> set fr \<and> count_list from v = 1)) \<and>
     fr' = filter (\<lambda>x. x \<notin> set from) fr"
proof (induction "from" arbitrary: fr)
  case Nil
  then show ?case by auto
next
  case (Cons v vs)
  have flt: "filter (\<lambda>x. x \<notin> set vs) (removeAll v fr) = filter (\<lambda>x. x \<notin> set (v # vs)) fr"
    by (induction fr) auto
  show ?case
  proof (cases "v \<in> set fr")
    case True
    then have step: "erase_from f ib expr add v fr = Inr (removeAll v fr)"
      by (simp add: erase_from_def)
    have "(\<forall>u\<in>set vs. ignorable f ib add u \<or> (u \<in> set (removeAll v fr) \<and> count_list vs u = 1))
       \<longleftrightarrow> (\<forall>u\<in>set (v # vs). ignorable f ib add u \<or> (u \<in> set fr \<and> count_list (v # vs) u = 1))"
      using True by (auto simp: count_list_0_iff)
    with Cons.IH [of "removeAll v fr"] step flt show ?thesis by simp
  next
    case False
    show ?thesis
    proof (cases "ignorable f ib add v")
      case True
      with False have step: "erase_from f ib expr add v fr = Inr fr"
        by (simp add: erase_from_def ignorable_def)
      have "(\<forall>u\<in>set vs. ignorable f ib add u \<or> (u \<in> set fr \<and> count_list vs u = 1))
         \<longleftrightarrow> (\<forall>u\<in>set (v # vs). ignorable f ib add u \<or> (u \<in> set fr \<and> count_list (v # vs) u = 1))"
        using True False by auto
      moreover have "filter (\<lambda>x. x \<notin> set vs) fr = filter (\<lambda>x. x \<notin> set (v # vs)) fr"
        using False by (intro filter_cong) auto
      ultimately show ?thesis using Cons.IH [of fr] step by simp
    next
      case ni: False
      with False have "erase_from f ib expr add v fr = Inl (InvalidDerivedDomainInput expr v)"
        by (simp add: erase_from_def ignorable_def)
      with False ni show ?thesis by auto
    qed
  qed
qed

lemma foldM_erase_from_Inl:
  "foldM (erase_from f ib expr add) from fr = Inl e \<Longrightarrow>
     \<exists>v\<in>set from. \<not> ignorable f ib add v \<and> e = InvalidDerivedDomainInput expr v"
proof (induction "from" arbitrary: fr)
  case Nil
  then show ?case by simp
next
  case (Cons v vs)
  then show ?case
    by (auto simp: erase_from_def ignorable_def Let_def split: if_splits)
qed

text \<open>
  C4. Take a traversed expression whose inputs and outputs are iteration domains and whose
  from-nodes are not all additional ids, and let \<open>new\<close> be its to-nodes outside the
  additional ids. The loop body succeeds exactly when every node of \<open>new\<close> is newly inserted
  (none is in the frontier, none occurs twice) and every from-node is either ignorable (an
  ignored broadcast axis or an additional id) or is in the frontier and occurs once among the
  from-nodes; the frontier then gains \<open>new\<close> and loses the from-nodes, and the additional ids
  stay. If a node of \<open>new\<close> was already present, the body fails with the "invalid derived
  domain" error on an output; if the insertions pass and a from-node that is not ignorable
  cannot be erased once, it fails with the "invalid derived domain" error on an input. A
  failure of the body at the state the traversal has reached is the failure of the call.
\<close>

theorem compareDomains_step_frontier:
  assumes "list_all (isIterDomain f) (inputs (expr_heap f expr))"
    and "list_all (isIterDomain f) (outputs (expr_heap f expr))"
    and "\<not> (\<forall>v\<in>set (from_nodes f (expr, direction)). v \<in> add)"
    and "new = filter (\<lambda>v. v \<notin> add) (to_nodes f (expr, direction))"
  shows
    "(compareDomains_step f ib (expr, direction) (frontier, add) = Inr (frontier', add') \<longleftrightarrow>
        distinct new \<and> set new \<inter> set frontier = {} \<and>
        (\<forall>v\<in>set (from_nodes f (expr, direction)).
           ignorable f ib add v \<or>
           (v \<in> set (frontier @ new) \<and> count_list (from_nodes f (expr, direction)) v = 1)) \<and>
        frontier' = filter (\<lambda>x. x \<notin> set (from_nodes f (expr, direction))) (frontier @ new) \<and>
        add' = add) \<and>
     (\<not> (distinct new \<and> set new \<inter> set frontier = {}) \<longrightarrow>
        (\<exists>v\<in>set new. compareDomains_step f ib (expr, direction) (frontier, add) =
                        Inl (InvalidDerivedDomainOutput expr v))) \<and>
     (distinct new \<and> set new \<inter> set frontier = {} \<and>
      \<not> (\<forall>v\<in>set (from_nodes f (expr, direction)).
           ignorable f ib add v \<or>
           (v \<in> set (frontier @ new) \<and> count_list (from_nodes f (expr, direction)) v = 1)) \<longrightarrow>
        (\<exists>v\<in>set (from_nodes f (expr, direction)). \<not> ignorable f ib add v \<and>
           compareDomains_step f ib (expr, direction) (frontier, add) =
             Inl (InvalidDerivedDomainInput expr v))) \<and>
     (\<forall>e getExprsBetween getReachableValsFrom dom0 dom1 additional_ids pre post.
        getExprsBetween (dom0 @ additional_ids) dom1 = pre @ (expr, direction) # post \<and>
        distinct dom0 \<and> distinct dom1 \<and> (dom0 \<noteq> [] \<or> dom1 \<noteq> []) \<and>
        foldM (compareDomains_step f ib) pre (remdups (dom0 @ additional_ids), set additional_ids)
          = Inr (frontier, add) \<and>
        compareDomains_step f ib (expr, direction) (frontier, add) = Inl e \<longrightarrow>
        compareDomains f getExprsBetween getReachableValsFrom dom0 dom1 additional_ids ib = Inl e)"
proof -
  let ?from = "from_nodes f (expr, direction)"
  let ?to = "to_nodes f (expr, direction)"
  let ?S = "compareDomains_step f ib (expr, direction) (frontier, add)"
  let ?okto = "distinct new \<and> set new \<inter> set frontier = {}"
  let ?okfrom = "\<forall>v\<in>set ?from. ignorable f ib add v \<or>
           (v \<in> set (frontier @ new) \<and> count_list ?from v = 1)"
  from assms(3) have nall: "\<not> list_all (\<lambda>v. v \<in> add) ?from" by (simp add: list_all_iff)
  have S: "?S = (case foldM (insert_to expr add) ?to frontier of
             Inl e \<Rightarrow> Inl e
           | Inr frontier1 \<Rightarrow>
               (case foldM (erase_from f ib expr add) ?from frontier1 of
                  Inl e \<Rightarrow> Inl e
                | Inr frontier2 \<Rightarrow> Inr (frontier2, add)))"
    using assms(1,2) nall by (simp add: compareDomains_step_def split: sum.splits)
  have ins: "foldM (insert_to expr add) ?to frontier = Inr fr1 \<longleftrightarrow> ?okto \<and> fr1 = frontier @ new"
    for fr1
    using foldM_insert_to_Inr [of expr add ?to frontier fr1] by (auto simp: assms(4))
  have A: "?S = Inr (frontier', add') \<longleftrightarrow>
        ?okto \<and> ?okfrom \<and> frontier' = filter (\<lambda>x. x \<notin> set ?from) (frontier @ new) \<and> add' = add"
  proof (cases "foldM (insert_to expr add) ?to frontier")
    case (Inl e)
    with ins have "\<not> ?okto" by auto
    with Inl S show ?thesis by auto
  next
    case (Inr fr1)
    with ins have ok: "?okto" and fr1: "fr1 = frontier @ new" by auto
    from Inr S ok fr1 foldM_erase_from_Inr [of f ib expr add ?from "frontier @ new" frontier']
    show ?thesis by (auto split: sum.splits)
  qed
  have B: "\<exists>v\<in>set new. ?S = Inl (InvalidDerivedDomainOutput expr v)" if "\<not> ?okto"
  proof (cases "foldM (insert_to expr add) ?to frontier")
    case (Inl e)
    from foldM_insert_to_Inl [OF Inl] obtain v where
      "v \<in> set ?to" "v \<notin> add" "e = InvalidDerivedDomainOutput expr v" by blast
    with Inl S show ?thesis by (auto simp: assms(4))
  next
    case (Inr fr1)
    with ins that show ?thesis by auto
  qed
  have C: "\<exists>v\<in>set ?from. \<not> ignorable f ib add v \<and> ?S = Inl (InvalidDerivedDomainInput expr v)"
    if "?okto" "\<not> ?okfrom"
  proof -
    from that(1) ins have i: "foldM (insert_to expr add) ?to frontier = Inr (frontier @ new)"
      by simp
    show ?thesis
    proof (cases "foldM (erase_from f ib expr add) ?from (frontier @ new)")
      case (Inl e)
      from foldM_erase_from_Inl [OF Inl] i Inl S show ?thesis by auto
    next
      case (Inr fr2)
      with foldM_erase_from_Inr [of f ib expr add ?from "frontier @ new" fr2] that(2)
      show ?thesis by auto
    qed
  qed
  have D: "compareDomains f getExprsBetween getReachableValsFrom dom0 dom1 additional_ids ib = Inl e"
    if "getExprsBetween (dom0 @ additional_ids) dom1 = pre @ (expr, direction) # post"
      "distinct dom0" "distinct dom1" "dom0 \<noteq> [] \<or> dom1 \<noteq> []"
      "foldM (compareDomains_step f ib) pre (remdups (dom0 @ additional_ids), set additional_ids)
          = Inr (frontier, add)"
      "?S = Inl e"
    for e getExprsBetween getReachableValsFrom dom0 dom1 additional_ids pre post
  proof -
    have "foldM (compareDomains_step f ib) (pre @ (expr, direction) # post)
            (remdups (dom0 @ additional_ids), set additional_ids) = Inl e"
      using that(5,6) by (simp add: foldM_append)
    with that(1-4) show ?thesis
      by (auto simp: compareDomains_def Let_def)
  qed
  from A B C D show ?thesis by blast
qed

text \<open>
  The theorem at the split of the axis 0 into the axes 1 and 2, traversed forward: from the
  frontier \<open>[0]\<close> the body succeeds, from \<open>[0, 1]\<close> the to-node 1 is already present, from
  the empty frontier the from-node 0 cannot be erased, and the call that starts from the
  domain \<open>[1]\<close> fails.
\<close>

theorem compareDomains_step_frontier_witness:
  "compareDomains_step split_fusion True (1, Forward) ([0], {}) = Inr ([1, 2], {}) \<and>
   (\<exists>v. compareDomains_step split_fusion True (1, Forward) ([0, 1], {}) =
          Inl (InvalidDerivedDomainOutput 1 v)) \<and>
   (\<exists>v. compareDomains_step split_fusion True (1, Forward) ([], {}) =
          Inl (InvalidDerivedDomainInput 1 v)) \<and>
   (\<exists>v. compareDomains split_fusion (\<lambda>_ _. [(1, Forward)]) (\<lambda>_ _. []) [1] [2] [] True =
          Inl (InvalidDerivedDomainOutput 1 v))"
proof -
  have pre: "list_all (isIterDomain split_fusion) (inputs (expr_heap split_fusion 1))"
    "list_all (isIterDomain split_fusion) (outputs (expr_heap split_fusion 1))"
    "\<not> (\<forall>v\<in>set (from_nodes split_fusion (1, Forward)). v \<in> {})"
    "[1, 2] = filter (\<lambda>v. v \<notin> {}) (to_nodes split_fusion (1, Forward))"
    by (simp_all add: split_fusion_def iter_val_def example_defs isIterDomain_def
          from_nodes_def to_nodes_def)
  have fr: "from_nodes split_fusion (1, Forward) = [0]"
    and nign: "\<not> ignorable split_fusion True {} 0"
    by (simp_all add: split_fusion_def iter_val_def example_defs from_nodes_def ignorable_def
          isBroadcast_def)
  note step_rule = compareDomains_step_frontier [OF pre, of True]
  note success = step_rule [THEN conjunct1]
  note to_seen = step_rule [THEN conjunct2, THEN conjunct1, rule_format]
  note from_unseen = step_rule [THEN conjunct2, THEN conjunct2, THEN conjunct1, rule_format]
  note call_fails = step_rule [THEN conjunct2, THEN conjunct2, THEN conjunct2, rule_format]
  from success [of "[0]" "[1, 2]" "{}"] fr
  have 1: "compareDomains_step split_fusion True (1, Forward) ([0], {}) = Inr ([1, 2], {})"
    by simp
  have "\<exists>v\<in>set [1, 2]. compareDomains_step split_fusion True (1, Forward) ([0, 1], {}) =
          Inl (InvalidDerivedDomainOutput 1 v)"
    by (rule to_seen) simp
  then have 2: "\<exists>v. compareDomains_step split_fusion True (1, Forward) ([0, 1], {}) =
          Inl (InvalidDerivedDomainOutput 1 v)" by blast
  have "\<exists>v\<in>set (from_nodes split_fusion (1, Forward)). \<not> ignorable split_fusion True {} v \<and>
           compareDomains_step split_fusion True (1, Forward) ([], {}) =
             Inl (InvalidDerivedDomainInput 1 v)"
    by (rule from_unseen) (use fr nign in simp)
  then have 3: "\<exists>v. compareDomains_step split_fusion True (1, Forward) ([], {}) =
          Inl (InvalidDerivedDomainInput 1 v)" by blast
  have "\<exists>v\<in>set [1, 2]. compareDomains_step split_fusion True (1, Forward) ([1], {}) =
          Inl (InvalidDerivedDomainOutput 1 v)"
    by (rule to_seen) simp
  then obtain v where v: "compareDomains_step split_fusion True (1, Forward) ([1], {}) =
          Inl (InvalidDerivedDomainOutput 1 v)" by blast
  have "compareDomains split_fusion (\<lambda>_ _. [(1, Forward)]) (\<lambda>_ _. []) [1] [2] [] True =
          Inl (InvalidDerivedDomainOutput 1 v)"
    by (rule call_fails [where pre = "[]" and post = "[]" and frontier = "[1]"]) (use v in simp)
  then have 4: "\<exists>v. compareDomains split_fusion (\<lambda>_ _. [(1, Forward)]) (\<lambda>_ _. []) [1] [2] [] True =
          Inl (InvalidDerivedDomainOutput 1 v)" by blast
  from 1 2 3 4 show ?thesis by blast
qed

lemma check_ids_all_found:
  assumes "\<forall>x\<in>set ids. is_symb f x \<or> (ib \<and> isBroadcast f x) \<or> x \<in> target"
  shows "check_ids f ib getReachableValsFrom ids target = Inr False"
  using assms unfolding check_ids_def
  by (induction ids) (auto simp: check_id_def)

lemma compareDomains_result_same:
  assumes "set frontier0 = set dom1"
  shows "compareDomains_result f getReachableValsFrom ignore_broadcast dom1 frontier0 =
           Inr \<lparr>dom0_has_unreachable_ids = False, dom1_has_unreachable_ids = False\<rparr>"
proof -
  define ids_to_remove where
    "ids_to_remove = filter (\<lambda>x. is_symb f x \<and> x \<in> set dom1) frontier0"
  define frontier where "frontier = filter (\<lambda>x. x \<notin> set ids_to_remove) frontier0"
  define dom1_list where "dom1_list = filter (\<lambda>x. x \<notin> set ids_to_remove) dom1"
  have fr: "set frontier = {x \<in> set dom1. \<not> is_symb f x}"
    and d1: "set dom1_list = {x \<in> set dom1. \<not> is_symb f x}"
    using assms by (auto simp: frontier_def dom1_list_def ids_to_remove_def)
  have nosym: "\<not> list_ex (is_symb f) frontier" "\<not> list_ex (is_symb f) dom1_list"
    using fr d1 by (auto simp: list_ex_iff)
  have 1: "check_ids f ignore_broadcast getReachableValsFrom dom1 (set frontier) = Inr False"
    by (rule check_ids_all_found) (auto simp: fr)
  have 2: "check_ids f ignore_broadcast getReachableValsFrom frontier (set dom1_list) = Inr False"
    by (rule check_ids_all_found) (auto simp: fr d1)
  show ?thesis
    unfolding compareDomains_result_def Let_def
      ids_to_remove_def [symmetric] frontier_def [symmetric] dom1_list_def [symmetric]
    by (simp add: nosym 1 2)
qed

text \<open>
  C3. Comparing a duplicate-free list of iteration domains with itself, where the traversal
  between the two has no expression to visit, reports both flags false. Comparing the list
  of one axis with the list of the two axes that a split expression makes of it, where the
  traversal visits that expression forward, reports both flags false. In both cases there
  are no additional ids.
\<close>

theorem compareDomains_identical_and_split:
  "(distinct dom_ids \<and> getExprsBetween dom_ids dom_ids = [] \<longrightarrow>
      compareDomains f getExprsBetween getReachableValsFrom dom_ids dom_ids [] ignore_broadcast =
        Inr \<lparr>dom0_has_unreachable_ids = False, dom1_has_unreachable_ids = False\<rparr>) \<and>
   (distinct [a, b, c] \<and> isIterDomain f a \<and> isIterDomain f b \<and> isIterDomain f c \<and>
    inputs (expr_heap f split_expr) = [a] \<and> outputs (expr_heap f split_expr) = [b, c] \<and>
    getExprsBetween [a] [b, c] = [(split_expr, Forward)] \<longrightarrow>
      compareDomains f getExprsBetween getReachableValsFrom [a] [b, c] [] ignore_broadcast =
        Inr \<lparr>dom0_has_unreachable_ids = False, dom1_has_unreachable_ids = False\<rparr>)"
proof (intro conjI impI)
  assume h: "distinct dom_ids \<and> getExprsBetween dom_ids dom_ids = []"
  have "compareDomains_result f getReachableValsFrom ignore_broadcast dom_ids (remdups dom_ids) =
          Inr \<lparr>dom0_has_unreachable_ids = False, dom1_has_unreachable_ids = False\<rparr>"
    by (rule compareDomains_result_same) simp
  with h
  show "compareDomains f getExprsBetween getReachableValsFrom dom_ids dom_ids [] ignore_broadcast =
        Inr \<lparr>dom0_has_unreachable_ids = False, dom1_has_unreachable_ids = False\<rparr>"
    by (simp add: compareDomains_def)
next
  assume h: "distinct [a, b, c] \<and> isIterDomain f a \<and> isIterDomain f b \<and> isIterDomain f c \<and>
    inputs (expr_heap f split_expr) = [a] \<and> outputs (expr_heap f split_expr) = [b, c] \<and>
    getExprsBetween [a] [b, c] = [(split_expr, Forward)]"
  then have step: "compareDomains_step f ignore_broadcast (split_expr, Forward) ([a], {}) =
      Inr ([b, c], {})"
    by (auto simp: compareDomains_step_def from_nodes_def to_nodes_def insert_to_def
          erase_from_def Let_def)
  have "compareDomains_result f getReachableValsFrom ignore_broadcast [b, c] [b, c] =
          Inr \<lparr>dom0_has_unreachable_ids = False, dom1_has_unreachable_ids = False\<rparr>"
    by (rule compareDomains_result_same) simp
  with h step
  show "compareDomains f getExprsBetween getReachableValsFrom [a] [b, c] [] ignore_broadcast =
        Inr \<lparr>dom0_has_unreachable_ids = False, dom1_has_unreachable_ids = False\<rparr>"
    by (simp add: compareDomains_def)
qed

text \<open>The theorem at the split of the axis 0 into the axes 1 and 2.\<close>

theorem compareDomains_identical_and_split_witness:
  "compareDomains split_fusion (\<lambda>_ _. []) (\<lambda>_ _. []) [1, 2] [1, 2] [] True =
     Inr \<lparr>dom0_has_unreachable_ids = False, dom1_has_unreachable_ids = False\<rparr> \<and>
   compareDomains split_fusion (\<lambda>_ _. [(1, Forward)]) (\<lambda>_ _. []) [0] [1, 2] [] True =
     Inr \<lparr>dom0_has_unreachable_ids = False, dom1_has_unreachable_ids = False\<rparr>"
proof -
  have pre: "distinct [1::nat, 2]" "distinct [0::nat, 1, 2]"
    "isIterDomain split_fusion 0" "isIterDomain split_fusion 1" "isIterDomain split_fusion 2"
    "inputs (expr_heap split_fusion 1) = [0]" "outputs (expr_heap split_fusion 1) = [1, 2]"
    by (simp_all add: split_fusion_def iter_val_def example_defs isIterDomain_def)
  from compareDomains_identical_and_split
         [of "[1, 2]" "\<lambda>_ _. []" split_fusion "\<lambda>_ _. []" True] pre
  have 1: "compareDomains split_fusion (\<lambda>_ _. []) (\<lambda>_ _. []) [1, 2] [1, 2] [] True =
     Inr \<lparr>dom0_has_unreachable_ids = False, dom1_has_unreachable_ids = False\<rparr>" by simp
  from compareDomains_identical_and_split
         [of _ "\<lambda>_ _. [(1, Forward)]" split_fusion "\<lambda>_ _. []" True 0 1 2 1] pre
  have 2: "compareDomains split_fusion (\<lambda>_ _. [(1, Forward)]) (\<lambda>_ _. []) [0] [1, 2] [] True =
     Inr \<lparr>dom0_has_unreachable_ids = False, dom1_has_unreachable_ids = False\<rparr>" by simp
  from 1 2 show ?thesis by blast
qed

section \<open>The cycle detector\<close>

lemma push_next_eq:
  "push_next path stmts queue =
     (if \<exists>s\<in>set stmts. s \<in> set path then None else Some (rev stmts @ queue))"
  by (induction stmts arbitrary: queue) auto

text \<open>The four ways one iteration of the loop can go.\<close>

lemma checkCycle_step_cases [consumes 2, case_names skip leaf finish cycle enter]:
  assumes "cc_queue s = x # rest" and "t = checkCycle_step f from s"
  obtains
    "x \<in> from \<or> x \<in> cc_visited s"
      "t = s\<lparr>cc_queue := rest\<rparr>"
  | "x \<notin> from" "x \<notin> cc_visited s" "next_of f x = []"
      "t = s\<lparr>cc_queue := rest, cc_visited := insert x (cc_visited s)\<rparr>"
  | "x \<notin> from" "x \<notin> cc_visited s" "next_of f x \<noteq> []" "x \<in> set (cc_path s)"
      "t = s\<lparr>cc_queue := rest, cc_path := removeAll x (cc_path s),
           cc_visited := insert x (cc_visited s)\<rparr>"
  | "x \<notin> from" "x \<notin> cc_visited s" "next_of f x \<noteq> []" "x \<notin> set (cc_path s)"
      "\<exists>c\<in>set (next_of f x). c \<in> set (cc_path s @ [x])"
      "t = s\<lparr>cc_path := cc_path s @ [x], cc_result := Some (cc_path s @ [x])\<rparr>"
  | "x \<notin> from" "x \<notin> cc_visited s" "next_of f x \<noteq> []" "x \<notin> set (cc_path s)"
      "\<forall>c\<in>set (next_of f x). c \<notin> set (cc_path s @ [x])"
      "t = s\<lparr>cc_path := cc_path s @ [x], cc_queue := rev (next_of f x) @ x # rest\<rparr>"
  using assms
  by (auto simp: checkCycle_step_def Let_def push_next_eq split: if_splits)

lemma checkCycle_loop_terminates:
  assumes fin: "finite U" and closed: "\<forall>s\<in>U. set (next_of f s) \<subseteq> U"
    and start: "set (cc_queue s0) \<subseteq> U"
  shows "\<exists>t. while_option (\<lambda>s. cc_result s = None \<and> cc_queue s \<noteq> [])
               (checkCycle_step f from) s0 = Some t"
proof (rule wf_while_option_Some [where P = "\<lambda>s. set (cc_queue s) \<subseteq> U"])
  let ?m = "\<lambda>s::cycle_state. (card (U - (set (cc_path s) \<union> cc_visited s)), length (cc_queue s))"
  show "wf {(t, s). (set (cc_queue s) \<subseteq> U \<and> cc_result s = None \<and> cc_queue s \<noteq> []) \<and>
                    t = checkCycle_step f from s}"
  proof (rule wf_subset [OF wf_inv_image [OF wf_lex_prod [OF wf_less_than wf_less_than]], of _ ?m],
      clarify)
    fix s :: cycle_state
    assume sub: "set (cc_queue s) \<subseteq> U" and ne: "cc_queue s \<noteq> []"
    then obtain x rest where q: "cc_queue s = x # rest" by (cases "cc_queue s") auto
    with sub have xU: "x \<in> U" by simp
    have drop: "card (U - (A \<union> insert x B)) \<le> card (U - (A \<union> B))" for A B
      using fin by (intro card_mono) auto
    define t where "t = checkCycle_step f from s"
    from q t_def have "(t, s) \<in> inv_image (less_than <*lex*> less_than) ?m"
    proof (cases rule: checkCycle_step_cases)
      case skip
      then show ?thesis by (simp add: q)
    next
      case leaf
      with drop [of "set (cc_path s)" "cc_visited s"] show ?thesis
        by (auto simp: q)
    next
      case finish
      have "set (removeAll x (cc_path s)) \<union> insert x (cc_visited s) = set (cc_path s) \<union> cc_visited s"
        using finish(4) by auto
      with finish show ?thesis by (simp add: q)
    next
      case cycle
      have "card (U - (insert x (set (cc_path s)) \<union> cc_visited s))
              < card (U - (set (cc_path s) \<union> cc_visited s))"
        using fin xU cycle(2,4) by (intro psubset_card_mono) auto
      with cycle show ?thesis by simp
    next
      case enter
      have "card (U - (insert x (set (cc_path s)) \<union> cc_visited s))
              < card (U - (set (cc_path s) \<union> cc_visited s))"
        using fin xU enter(2,4) by (intro psubset_card_mono) auto
      with enter show ?thesis by simp
    qed
    then show "(checkCycle_step f from s, s) \<in> inv_image (less_than <*lex*> less_than) ?m"
      by (simp add: t_def)
  qed
next
  fix s :: cycle_state
  assume sub: "set (cc_queue s) \<subseteq> U" and b: "cc_result s = None \<and> cc_queue s \<noteq> []"
  then obtain x rest where q: "cc_queue s = x # rest" by (cases "cc_queue s") auto
  with sub have xU: "x \<in> U" and rU: "set rest \<subseteq> U" by simp_all
  from closed xU have "set (next_of f x) \<subseteq> U" by blast
  define t where "t = checkCycle_step f from s"
  from q t_def have "set (cc_queue t) \<subseteq> U"
    using sub rU xU \<open>set (next_of f x) \<subseteq> U\<close>
    by (cases rule: checkCycle_step_cases) (auto simp: q)
  then show "set (cc_queue (checkCycle_step f from s)) \<subseteq> U" by (simp add: t_def)
next
  show "set (cc_queue s0) \<subseteq> U" by (rule start)
qed

lemma next_relI: "c \<in> set (next_of f x) \<Longrightarrow> (x, c) \<in> next_rel f"
  by (simp add: next_rel_def)

lemma cc_path_inv_step:
  assumes inv: "cc_path_inv f from s" and run: "cc_result s = None" "cc_queue s \<noteq> []"
  shows "cc_path_inv f from (checkCycle_step f from s)"
proof -
  from run(2) obtain x rest where q: "cc_queue s = x # rest" by (cases "cc_queue s") auto
  from inv run(1) have
    K4: "\<forall>n\<in>set (cc_path s). n \<notin> from \<and> n \<notin> cc_visited s \<and> next_of f n \<noteq> []"
    and K1: "set (cc_path s) \<subseteq> set (cc_queue s)"
    and K2: "\<forall>n\<in>set (cc_path s). \<forall>y\<in>set (takeWhile (\<lambda>y. y \<noteq> n) (cc_queue s)).
           (n, y) \<in> (next_rel f)\<^sup>+"
    by (simp_all add: cc_path_inv_def)
  \<comment> \<open>Popping the front keeps the facts about every path node other than the front.\<close>
  have pop: "\<forall>n\<in>set (cc_path s) - {x}. n \<in> set rest \<and>
               (\<forall>y\<in>set (takeWhile (\<lambda>y. y \<noteq> n) rest). (n, y) \<in> (next_rel f)\<^sup>+)"
  proof
    fix n assume n: "n \<in> set (cc_path s) - {x}"
    with K1 q have "n \<in> set rest" by auto
    moreover from n have "takeWhile (\<lambda>y. y \<noteq> n) (cc_queue s) = x # takeWhile (\<lambda>y. y \<noteq> n) rest"
      by (auto simp: q)
    with K2 n have "\<forall>y\<in>set (takeWhile (\<lambda>y. y \<noteq> n) rest). (n, y) \<in> (next_rel f)\<^sup>+"
      by auto
    ultimately show "n \<in> set rest \<and>
               (\<forall>y\<in>set (takeWhile (\<lambda>y. y \<noteq> n) rest). (n, y) \<in> (next_rel f)\<^sup>+)" by blast
  qed
  define t where "t = checkCycle_step f from s"
  from q t_def have "cc_path_inv f from t"
  proof (cases rule: checkCycle_step_cases)
    case skip
    with K4 have "x \<notin> set (cc_path s)" by blast
    with pop K4 skip(2) run(1) show ?thesis
      by (auto simp: cc_path_inv_def)
  next
    case leaf
    with K4 have "x \<notin> set (cc_path s)" by blast
    with pop K4 leaf(4) run(1) show ?thesis
      by (auto simp: cc_path_inv_def)
  next
    case finish
    with pop K4 run(1) show ?thesis
      by (auto simp: cc_path_inv_def)
  next
    case cycle
    from cycle(5) obtain c where c: "c \<in> set (next_of f x)" "c \<in> set (cc_path s) \<or> c = x"
      by auto
    have "\<exists>m. (m, m) \<in> (next_rel f)\<^sup>+"
    proof (cases "c = x")
      case True
      with c(1) have "(x, x) \<in> (next_rel f)\<^sup>+" by (auto intro: next_relI)
      then show ?thesis ..
    next
      case False
      with c(2) have cp: "c \<in> set (cc_path s)" by simp
      from False have "x \<in> set (takeWhile (\<lambda>y. y \<noteq> c) (cc_queue s))" by (simp add: q)
      with K2 cp have "(c, x) \<in> (next_rel f)\<^sup>+" by blast
      with c(1) have "(c, c) \<in> (next_rel f)\<^sup>+" by (auto intro: next_relI trancl_into_trancl)
      then show ?thesis ..
    qed
    with cycle(6) show ?thesis by (simp add: cc_path_inv_def)
  next
    case enter
    let ?cs = "next_of f x"
    have pre: "takeWhile (\<lambda>y. y \<noteq> n) (rev ?cs @ x # rest) =
                 rev ?cs @ takeWhile (\<lambda>y. y \<noteq> n) (x # rest)"
      if "n \<in> set (cc_path s @ [x])" for n
      using that enter(5) by (intro takeWhile_append2) auto
    have K2': "\<forall>n\<in>set (cc_path s @ [x]). \<forall>y\<in>set (takeWhile (\<lambda>y. y \<noteq> n) (rev ?cs @ x # rest)).
           (n, y) \<in> (next_rel f)\<^sup>+"
    proof (intro ballI)
      fix n y assume n: "n \<in> set (cc_path s @ [x])"
        and y: "y \<in> set (takeWhile (\<lambda>y. y \<noteq> n) (rev ?cs @ x # rest))"
      show "(n, y) \<in> (next_rel f)\<^sup>+"
      proof (cases "n = x")
        case True
        with y pre [OF n] have "y \<in> set ?cs" by simp
        with True show ?thesis by (auto intro: next_relI)
      next
        case False
        with n have np: "n \<in> set (cc_path s)" by simp
        from False have tw: "takeWhile (\<lambda>y. y \<noteq> n) (cc_queue s) = x # takeWhile (\<lambda>y. y \<noteq> n) rest"
          by (auto simp: q)
        with K2 np have nx: "(n, x) \<in> (next_rel f)\<^sup>+" by auto
        from y pre [OF n] False
        have "y \<in> set ?cs \<or> y \<in> set (takeWhile (\<lambda>y. y \<noteq> n) (cc_queue s))"
          by (auto simp: q)
        then show ?thesis
        proof
          assume "y \<in> set ?cs"
          with nx show ?thesis by (auto intro: next_relI trancl_into_trancl)
        next
          assume "y \<in> set (takeWhile (\<lambda>y. y \<noteq> n) (cc_queue s))"
          with K2 np show ?thesis by blast
        qed
      qed
    qed
    have K1': "set (cc_path s @ [x]) \<subseteq> set (rev ?cs @ x # rest)"
      using K1 q by auto
    have K4': "\<forall>n\<in>set (cc_path s @ [x]). n \<notin> from \<and> n \<notin> cc_visited s \<and> next_of f n \<noteq> []"
      using K4 enter(1,2,3) by auto
    from K1' K2' K4' enter(6) run(1) show ?thesis
      by (simp add: cc_path_inv_def)
  qed
  then show ?thesis by (simp add: t_def)
qed

lemma open_rel_first: "(a, b) \<in> (open_rel f from)\<^sup>+ \<Longrightarrow>
  \<exists>c. c \<in> set (next_of f a) \<and> c \<notin> from \<and> a \<notin> from \<and> (c, b) \<in> (open_rel f from)\<^sup>*"
  by (auto simp: open_rel_def dest!: tranclD)

lemma open_rel_on_cycle:
  assumes "(x, x) \<in> (open_rel f from)\<^sup>+"
  shows "\<exists>c. c \<in> set (next_of f x) \<and> c \<notin> from \<and> (c, c) \<in> (open_rel f from)\<^sup>+"
proof -
  from open_rel_first [OF assms] obtain c where
    c: "c \<in> set (next_of f x)" "c \<notin> from" "x \<notin> from" "(c, x) \<in> (open_rel f from)\<^sup>*" by blast
  then have "(x, c) \<in> open_rel f from" by (simp add: open_rel_def)
  with c(4) have "(c, c) \<in> (open_rel f from)\<^sup>+" by (rule rtrancl_into_trancl1)
  with c show ?thesis by blast
qed

lemma cc_closure_inv_step:
  assumes inv: "cc_closure_inv f from to s" and pinv: "cc_path_inv f from s"
    and run: "cc_result s = None" "cc_queue s \<noteq> []"
  shows "cc_closure_inv f from to (checkCycle_step f from s)"
proof -
  from run(2) obtain x rest where q: "cc_queue s = x # rest" by (cases "cc_queue s") auto
  from pinv run(1) have
    K4: "\<forall>n\<in>set (cc_path s). n \<notin> from \<and> n \<notin> cc_visited s \<and> next_of f n \<noteq> []"
    by (simp add: cc_path_inv_def)
  from inv run(1) have
    J1: "\<forall>v\<in>cc_visited s. set (next_of f v) \<subseteq> cc_visited s \<union> from"
    and J2: "\<forall>n\<in>set (cc_path s).
           set (next_of f n) \<subseteq> cc_visited s \<union> from \<union> set (takeWhile (\<lambda>y. y \<noteq> n) (cc_queue s))"
    and J3: "ValStmt ` set to \<subseteq> cc_visited s \<union> from \<union> set (cc_queue s)"
    and J4: "\<forall>v\<in>cc_visited s. (v, v) \<notin> (open_rel f from)\<^sup>+"
    by (simp_all add: cc_closure_inv_def)
  \<comment> \<open>Popping the front, which is visited or on the boundary afterwards.\<close>
  have pop: "\<forall>n\<in>set (cc_path s) - {x}.
           set (next_of f n) \<subseteq> insert x (cc_visited s) \<union> from \<union> set (takeWhile (\<lambda>y. y \<noteq> n) rest)"
  proof
    fix n assume n: "n \<in> set (cc_path s) - {x}"
    then have tw: "takeWhile (\<lambda>y. y \<noteq> n) (cc_queue s) = x # takeWhile (\<lambda>y. y \<noteq> n) rest"
      by (auto simp: q)
    from J2 n have "set (next_of f n) \<subseteq>
        cc_visited s \<union> from \<union> set (takeWhile (\<lambda>y. y \<noteq> n) (cc_queue s))" by blast
    then show "set (next_of f n) \<subseteq>
        insert x (cc_visited s) \<union> from \<union> set (takeWhile (\<lambda>y. y \<noteq> n) rest)"
      unfolding tw by auto
  qed
  define t where "t = checkCycle_step f from s"
  from q t_def have "cc_closure_inv f from to t"
  proof (cases rule: checkCycle_step_cases)
    case skip
    with K4 have xp: "x \<notin> set (cc_path s)" by blast
    have J2': "\<forall>n\<in>set (cc_path s).
           set (next_of f n) \<subseteq> cc_visited s \<union> from \<union> set (takeWhile (\<lambda>y. y \<noteq> n) rest)"
    proof
      fix n assume "n \<in> set (cc_path s)"
      with xp have "n \<in> set (cc_path s) - {x}" by auto
      with pop have "set (next_of f n) \<subseteq>
          insert x (cc_visited s) \<union> from \<union> set (takeWhile (\<lambda>y. y \<noteq> n) rest)" by blast
      with skip(1) show "set (next_of f n) \<subseteq>
          cc_visited s \<union> from \<union> set (takeWhile (\<lambda>y. y \<noteq> n) rest)" by auto
    qed
    have J3': "ValStmt ` set to \<subseteq> cc_visited s \<union> from \<union> set rest"
      using J3 skip(1) by (auto simp: q)
    from J1 J2' J3' J4 skip(2) show ?thesis by (simp add: cc_closure_inv_def)
  next
    case leaf
    with K4 have xp: "x \<notin> set (cc_path s)" by blast
    have J1': "\<forall>v\<in>insert x (cc_visited s). set (next_of f v) \<subseteq> insert x (cc_visited s) \<union> from"
      using J1 leaf(3) by auto
    have J2': "\<forall>n\<in>set (cc_path s).
           set (next_of f n) \<subseteq> insert x (cc_visited s) \<union> from \<union> set (takeWhile (\<lambda>y. y \<noteq> n) rest)"
      using pop xp by simp
    have J3': "ValStmt ` set to \<subseteq> insert x (cc_visited s) \<union> from \<union> set rest"
      using J3 by (auto simp: q)
    have "(x, x) \<notin> (open_rel f from)\<^sup>+"
      using leaf(3) open_rel_first [of x x f "from"] by auto
    with J4 have J4': "\<forall>v\<in>insert x (cc_visited s). (v, v) \<notin> (open_rel f from)\<^sup>+" by simp
    from J1' J2' J3' J4' leaf(4) show ?thesis by (simp add: cc_closure_inv_def)
  next
    case finish
    from J2 finish(4) have kids: "set (next_of f x) \<subseteq> cc_visited s \<union> from"
      by (auto simp: q)
    have J1': "\<forall>v\<in>insert x (cc_visited s). set (next_of f v) \<subseteq> insert x (cc_visited s) \<union> from"
      using J1 kids by auto
    have J2': "\<forall>n\<in>set (removeAll x (cc_path s)).
           set (next_of f n) \<subseteq> insert x (cc_visited s) \<union> from \<union> set (takeWhile (\<lambda>y. y \<noteq> n) rest)"
      using pop by simp
    have J3': "ValStmt ` set to \<subseteq> insert x (cc_visited s) \<union> from \<union> set rest"
      using J3 by (auto simp: q)
    have "(x, x) \<notin> (open_rel f from)\<^sup>+"
    proof
      assume "(x, x) \<in> (open_rel f from)\<^sup>+"
      from open_rel_on_cycle [OF this] obtain c where
        "c \<in> set (next_of f x)" "c \<notin> from" "(c, c) \<in> (open_rel f from)\<^sup>+" by blast
      with kids J4 show False by blast
    qed
    with J4 have J4': "\<forall>v\<in>insert x (cc_visited s). (v, v) \<notin> (open_rel f from)\<^sup>+" by simp
    from J1' J2' J3' J4' finish(5) show ?thesis by (simp add: cc_closure_inv_def)
  next
    case cycle
    then show ?thesis by (simp add: cc_closure_inv_def)
  next
    case enter
    let ?cs = "next_of f x"
    have pre: "takeWhile (\<lambda>y. y \<noteq> n) (rev ?cs @ x # rest) =
                 rev ?cs @ takeWhile (\<lambda>y. y \<noteq> n) (x # rest)"
      if "n \<in> set (cc_path s @ [x])" for n
      using that enter(5) by (intro takeWhile_append2) auto
    have J2': "\<forall>n\<in>set (cc_path s @ [x]).
           set (next_of f n) \<subseteq> cc_visited s \<union> from \<union> set (takeWhile (\<lambda>y. y \<noteq> n) (rev ?cs @ x # rest))"
    proof
      fix n assume n: "n \<in> set (cc_path s @ [x])"
      show "set (next_of f n) \<subseteq>
          cc_visited s \<union> from \<union> set (takeWhile (\<lambda>y. y \<noteq> n) (rev ?cs @ x # rest))"
      proof (cases "n = x")
        case True
        with pre [OF n] show ?thesis by auto
      next
        case False
        with n have "n \<in> set (cc_path s)" by simp
        with J2 have "set (next_of f n) \<subseteq>
            cc_visited s \<union> from \<union> set (takeWhile (\<lambda>y. y \<noteq> n) (x # rest))"
          by (simp add: q)
        with pre [OF n] show ?thesis by auto
      qed
    qed
    have J3': "ValStmt ` set to \<subseteq> cc_visited s \<union> from \<union> set (rev ?cs @ x # rest)"
      using J3 by (auto simp: q)
    from J1 J2' J3' J4 enter(6) show ?thesis by (simp add: cc_closure_inv_def)
  qed
  then show ?thesis by (simp add: t_def)
qed

lemma checkCycle_final_state:
  assumes fin: "finite U" and closed: "\<forall>s\<in>U. set (next_of f s) \<subseteq> U"
    and targets: "ValStmt ` set to \<subseteq> U"
  obtains t where
    "while_option (\<lambda>s. cc_result s = None \<and> cc_queue s \<noteq> []) (checkCycle_step f from)
       \<lparr>cc_path = [], cc_visited = {}, cc_queue = map ValStmt to, cc_result = None\<rparr> = Some t"
    and "cc_result t \<noteq> None \<or> cc_queue t = []"
    and "cc_path_inv f from t" and "cc_closure_inv f from to t"
proof -
  let ?s0 = "\<lparr>cc_path = [], cc_visited = {}, cc_queue = map ValStmt to, cc_result = None\<rparr>"
  let ?b = "\<lambda>s. cc_result s = None \<and> cc_queue s \<noteq> []"
  from targets have "set (cc_queue ?s0) \<subseteq> U" by simp
  from checkCycle_loop_terminates [OF fin closed this, of "from"]
  obtain t where t: "while_option ?b (checkCycle_step f from) ?s0 = Some t" by blast
  have init: "cc_path_inv f from ?s0 \<and> cc_closure_inv f from to ?s0"
    by (simp add: cc_path_inv_def cc_closure_inv_def)
  have "cc_path_inv f from t \<and> cc_closure_inv f from to t"
    by (rule while_option_rule
          [where P = "\<lambda>s. cc_path_inv f from s \<and> cc_closure_inv f from to s", OF _ t init])
       (auto intro: cc_path_inv_step cc_closure_inv_step)
  moreover from while_option_stop [OF t] have "cc_result t \<noteq> None \<or> cc_queue t = []" by auto
  ultimately show thesis using t that by blast
qed

lemma visited_closed:
  assumes "(v, w) \<in> (open_rel f from)\<^sup>*" and "v \<in> V"
    and "\<forall>v\<in>V. set (next_of f v) \<subseteq> V \<union> from"
  shows "w \<in> V"
  using assms(1,2)
proof (induction rule: rtrancl_induct)
  case base
  then show ?case .
next
  case (step y z)
  then have "y \<in> V" by simp
  with assms(3) step(2) show ?case by (auto simp: open_rel_def)
qed

text \<open>
  C5 (as amended). On a finite graph \<open>checkCycle\<close> returns. It returns a non-empty list when
  some statement that a target reaches through dependencies outside the boundary set lies
  on a cycle of such dependencies, that is, when a reachable value has a definition that
  takes the value as an input, directly or through a chain of definitions. It returns the
  empty list when the dependency graph has no cycle, for any boundary set and any targets.
\<close>

theorem checkCycle_finds_reachable_cycles:
  assumes "finite U" and "\<forall>s\<in>U. set (next_of f s) \<subseteq> U" and "ValStmt ` set to \<subseteq> U"
  shows "\<exists>r. checkCycle f from to = Some r \<and>
           ((\<exists>t\<in>set to. \<exists>m. (ValStmt t, m) \<in> (open_rel f from)\<^sup>* \<and>
                             (m, m) \<in> (open_rel f from)\<^sup>+) \<longrightarrow> r \<noteq> []) \<and>
           ((\<forall>m. (m, m) \<notin> (next_rel f)\<^sup>+) \<longrightarrow> r = [])"
proof -
  from checkCycle_final_state [OF assms, of "from"] obtain t where
    t: "while_option (\<lambda>s. cc_result s = None \<and> cc_queue s \<noteq> []) (checkCycle_step f from)
       \<lparr>cc_path = [], cc_visited = {}, cc_queue = map ValStmt to, cc_result = None\<rparr> = Some t"
    and stop: "cc_result t \<noteq> None \<or> cc_queue t = []"
    and pinv: "cc_path_inv f from t" and cinv: "cc_closure_inv f from to t"
    by blast
  define r where "r = (case cc_result t of Some ret \<Rightarrow> ret | None \<Rightarrow> [])"
  have res: "checkCycle f from to = Some r"
    by (simp add: checkCycle_def t r_def)
  have found: "r \<noteq> []"
    if "\<exists>t\<in>set to. \<exists>m. (ValStmt t, m) \<in> (open_rel f from)\<^sup>* \<and> (m, m) \<in> (open_rel f from)\<^sup>+"
  proof (cases "cc_result t")
    case (Some ret)
    with pinv show ?thesis by (simp add: cc_path_inv_def r_def)
  next
    case None
    with stop have empty: "cc_queue t = []" by simp
    from cinv None have
      J1: "\<forall>v\<in>cc_visited t. set (next_of f v) \<subseteq> cc_visited t \<union> from"
      and J3: "ValStmt ` set to \<subseteq> cc_visited t \<union> from \<union> set (cc_queue t)"
      and J4: "\<forall>v\<in>cc_visited t. (v, v) \<notin> (open_rel f from)\<^sup>+"
      by (simp_all add: cc_closure_inv_def)
    from that obtain t0 m where t0: "t0 \<in> set to"
      and reach: "(ValStmt t0, m) \<in> (open_rel f from)\<^sup>*" and cyc: "(m, m) \<in> (open_rel f from)\<^sup>+"
      by blast
    from reach cyc have "(ValStmt t0, m) \<in> (open_rel f from)\<^sup>+" by (rule rtrancl_trancl_trancl)
    from open_rel_first [OF this] have "ValStmt t0 \<notin> from" by blast
    with J3 t0 empty have "ValStmt t0 \<in> cc_visited t" by auto
    from visited_closed [OF reach this J1] have "m \<in> cc_visited t" .
    with J4 cyc show ?thesis by blast
  qed
  have none: "r = []" if "\<forall>m. (m, m) \<notin> (next_rel f)\<^sup>+"
  proof (cases "cc_result t")
    case None
    then show ?thesis by (simp add: r_def)
  next
    case (Some ret)
    with pinv that show ?thesis by (simp add: cc_path_inv_def)
  qed
  from res found none show ?thesis by blast
qed

text \<open>
  The theorem at a graph where the value 0 is an input of its own definition, with 0 as
  the target, and at an acyclic graph.
\<close>

theorem checkCycle_finds_reachable_cycles_witness:
  "(\<exists>r. checkCycle self_loop_fusion {} [0] = Some r \<and> r \<noteq> []) \<and>
   checkCycle dead_code_fusion {} [2, 3] = Some []"
proof -
  let ?U = "{ValStmt 0, ValStmt 1, ValStmt 2, ValStmt 3, ExprStmt 1, ExprStmt 2}"
  have U: "finite ?U" "\<forall>s\<in>?U. set (next_of self_loop_fusion s) \<subseteq> ?U"
    "ValStmt ` set [0] \<subseteq> ?U"
    by (simp_all add: self_loop_fusion_def example_defs)
  have "(ValStmt 0, ExprStmt 1) \<in> open_rel self_loop_fusion {}"
    "(ExprStmt 1, ValStmt 0) \<in> open_rel self_loop_fusion {}"
    by (simp_all add: open_rel_def self_loop_fusion_def example_defs)
  then have "(ValStmt 0, ValStmt 0) \<in> (open_rel self_loop_fusion {})\<^sup>+" by auto
  then have cyc: "\<exists>t\<in>set [0]. \<exists>m. (ValStmt t, m) \<in> (open_rel self_loop_fusion {})\<^sup>* \<and>
                             (m, m) \<in> (open_rel self_loop_fusion {})\<^sup>+"
    by auto
  from checkCycle_finds_reachable_cycles [OF U, of "{}"] cyc
  have 1: "\<exists>r. checkCycle self_loop_fusion {} [0] = Some r \<and> r \<noteq> []" by blast
  let ?V = "{ValStmt 0, ValStmt 1, ValStmt 2, ValStmt 3,
             ExprStmt 1, ExprStmt 2, ExprStmt 3, ExprStmt 4}"
  have V: "finite ?V" "\<forall>s\<in>?V. set (next_of dead_code_fusion s) \<subseteq> ?V"
    "ValStmt ` set [2, 3] \<subseteq> ?V"
    by (simp_all add: dead_code_fusion_def example_defs)
  define rank where "rank s = (case s of ValStmt v \<Rightarrow> 2 * v + 2 | ExprStmt e \<Rightarrow> 2 * e - 1)"
    for s :: Statement
  have "rank b < rank a" if "(a, b) \<in> next_rel dead_code_fusion" for a b
    using that
    by (cases a)
       (auto simp: next_rel_def rank_def dead_code_fusion_def example_defs
             split: if_splits option.splits)
  then have "acyclic (next_rel dead_code_fusion)" by (rule acyclicI_order)
  then have "\<forall>m. (m, m) \<notin> (next_rel dead_code_fusion)\<^sup>+" by (simp add: acyclic_def)
  with checkCycle_finds_reachable_cycles [OF V, of "{}"]
  have 2: "checkCycle dead_code_fusion {} [2, 3] = Some []" by auto
  from 1 2 show ?thesis by blast
qed

text \<open>
  A cycle somewhere in the graph is not enough. In the same graph the definition of the
  value 0 takes 0 as an input, but the only fusion output is the value 2, which does not
  depend on 0: the check started from the outputs returns the empty list. So does the check
  started from 0 when the defining expression of 0 is in the boundary set.
\<close>

theorem checkCycle_unreachable_cycle_counterexample:
  "val_definition (val_heap self_loop_fusion 0) = Some 1 \<and>
   0 \<in> set (inputs (expr_heap self_loop_fusion 1)) \<and>
   checkCycle_outputs self_loop_fusion = Some [] \<and>
   checkCycle self_loop_fusion {ExprStmt 1} [0] = Some []"
  by (simp add: checkCycle_eval self_loop_fusion_def example_defs)

section \<open>The recursive-definition check\<close>

lemma enqueue_inputs_eq:
  "enqueue_inputs val visited inps queue =
     (if val \<in> set inps then None else Some (queue @ filter (\<lambda>i. i \<notin> visited) inps))"
  by (induction inps arbitrary: queue) auto

lemma isRecursivelyDefined_step_cases [consumes 2, case_names leaf found enqueue]:
  assumes "vals_to_visit s = v # rest" and "t = isRecursivelyDefined_step f val s"
  obtains
    "val_definition (val_heap f v) = None"
      "t = s\<lparr>vals_to_visit := rest, visited_vals := insert v (visited_vals s)\<rparr>"
  | d where "val_definition (val_heap f v) = Some d" "val \<in> set (inputs (expr_heap f d))"
      "t = s\<lparr>vals_to_visit := rest, visited_vals := insert v (visited_vals s),
             rd_result := Some True\<rparr>"
  | d where "val_definition (val_heap f v) = Some d" "val \<notin> set (inputs (expr_heap f d))"
      "t = s\<lparr>vals_to_visit :=
               rest @ filter (\<lambda>i. i \<notin> insert v (visited_vals s)) (inputs (expr_heap f d)),
             visited_vals := insert v (visited_vals s)\<rparr>"
  using assms
  by (auto simp: isRecursivelyDefined_step_def Let_def enqueue_inputs_eq split: option.splits)

lemma sum_list_le_length_times:
  fixes g :: "'a \<Rightarrow> nat"
  shows "\<forall>x\<in>set xs. g x \<le> M \<Longrightarrow> sum_list (map g xs) \<le> length xs * M"
  by (induction xs) auto

lemma isRecursivelyDefined_loop_terminates:
  assumes fin: "finite V"
    and closed: "\<forall>v\<in>V. \<forall>d. val_definition (val_heap f v) = Some d
                   \<longrightarrow> set (inputs (expr_heap f d)) \<subseteq> V"
    and start: "set (vals_to_visit s0) \<subseteq> V"
  shows "\<exists>t. while_option (\<lambda>s. rd_result s = None \<and> vals_to_visit s \<noteq> [])
               (isRecursivelyDefined_step f val) s0 = Some t"
proof (rule wf_while_option_Some [where P = "\<lambda>s. set (vals_to_visit s) \<subseteq> V"])
  define fanin where "fanin v = (case val_definition (val_heap f v) of
      Some d \<Rightarrow> length (inputs (expr_heap f d)) | None \<Rightarrow> 0)" for v
  define B where "B = sum fanin V"
  have B: "length (inputs (expr_heap f d)) \<le> B"
    if "v \<in> V" "val_definition (val_heap f v) = Some d" for v d
  proof -
    from fin that(1) have "fanin v \<le> sum fanin V" by (intro member_le_sum) auto
    with that(2) show ?thesis by (simp add: fanin_def B_def)
  qed
  define w where "w X q = (B + 1) ^ card (V - insert q X)" for X q
  have w_pos: "1 \<le> w X q" for X q by (simp add: w_def)
  have w_mono: "w Y q \<le> w X q" if "X \<subseteq> Y" for X Y q
    unfolding w_def using that fin
    by (intro power_increasing card_mono) auto
  define m where "m s = (if rd_result s = None
      then sum_list (map (w (visited_vals s)) (vals_to_visit s)) else 0)" for s :: recursion_state
  show "wf {(t, s). (set (vals_to_visit s) \<subseteq> V \<and> rd_result s = None \<and> vals_to_visit s \<noteq> []) \<and>
                    t = isRecursivelyDefined_step f val s}"
  proof (rule wf_subset [OF wf_measure [of m]], clarify)
    fix s :: recursion_state
    assume sub: "set (vals_to_visit s) \<subseteq> V" and run: "rd_result s = None"
      and ne: "vals_to_visit s \<noteq> []"
    then obtain v rest where q: "vals_to_visit s = v # rest" by (cases "vals_to_visit s") auto
    with sub have vV: "v \<in> V" by simp
    let ?X = "visited_vals s" and ?X' = "insert v (visited_vals s)"
    define k where "k = card (V - ?X')"
    define p where "p = (B + 1) ^ k"
    have p_pos: "0 < p" by (simp add: p_def)
    have wv: "w ?X v = p" by (simp add: w_def k_def p_def)
    have ms: "m s = p + sum_list (map (w ?X) rest)"
      by (simp add: m_def run q wv)
    have rest_le: "sum_list (map (w ?X') rest) \<le> sum_list (map (w ?X) rest)"
      by (intro sum_list_mono w_mono) auto
    define t where "t = isRecursivelyDefined_step f val s"
    from q t_def have "m t < m s"
    proof (cases rule: isRecursivelyDefined_step_cases)
      case leaf
      then have "m t = sum_list (map (w ?X') rest)" by (simp add: m_def run)
      with rest_le ms p_pos show ?thesis by linarith
    next
      case (found d)
      then have "m t = 0" by (simp add: m_def)
      with ms p_pos show ?thesis by linarith
    next
      case (enqueue d)
      let ?new = "filter (\<lambda>i. i \<notin> ?X') (inputs (expr_heap f d))"
      have mt: "m t = sum_list (map (w ?X') rest) + sum_list (map (w ?X') ?new)"
        using enqueue(3) by (simp add: m_def run)
      from closed vV enqueue(1) have inV: "set (inputs (expr_heap f d)) \<subseteq> V" by blast
      have each: "\<forall>c\<in>set ?new. w ?X' c \<le> (B + 1) ^ (k - 1) \<and> 0 < k"
      proof
        fix c assume "c \<in> set ?new"
        with inV have c: "c \<in> V" "c \<notin> ?X'" by auto
        have "card (V - insert c ?X') < card (V - ?X')"
          using fin c by (intro psubset_card_mono) auto
        then have "card (V - insert c ?X') \<le> k - 1" "0 < k" by (simp_all add: k_def)
        then show "w ?X' c \<le> (B + 1) ^ (k - 1) \<and> 0 < k"
          by (simp add: w_def power_increasing)
      qed
      have len: "length ?new \<le> B"
        using B [OF vV enqueue(1)] length_filter_le [of _ "inputs (expr_heap f d)"]
        by (meson le_trans)
      show ?thesis
      proof (cases "?new = []")
        case True
        with mt rest_le ms p_pos show ?thesis by simp
      next
        case False
        from hd_in_set [OF False] each have kpos: "0 < k" by blast
        from each have "sum_list (map (w ?X') ?new) \<le> length ?new * (B + 1) ^ (k - 1)"
          by (intro sum_list_le_length_times) blast
        also from len have "\<dots> \<le> B * (B + 1) ^ (k - 1)" by simp
        also have "\<dots> < (B + 1) * (B + 1) ^ (k - 1)" by simp
        also from kpos have "\<dots> = p" by (cases k) (simp_all add: p_def)
        finally have "sum_list (map (w ?X') ?new) < p" .
        with mt rest_le ms show ?thesis by linarith
      qed
    qed
    then show "(isRecursivelyDefined_step f val s, s) \<in> measure m" by (simp add: t_def)
  qed
next
  fix s :: recursion_state
  assume sub: "set (vals_to_visit s) \<subseteq> V" and b: "rd_result s = None \<and> vals_to_visit s \<noteq> []"
  then obtain v rest where q: "vals_to_visit s = v # rest" by (cases "vals_to_visit s") auto
  with sub have vV: "v \<in> V" and rV: "set rest \<subseteq> V" by simp_all
  define t where "t = isRecursivelyDefined_step f val s"
  from q t_def have "set (vals_to_visit t) \<subseteq> V"
    using closed vV rV by (cases rule: isRecursivelyDefined_step_cases) auto
  then show "set (vals_to_visit (isRecursivelyDefined_step f val s)) \<subseteq> V" by (simp add: t_def)
next
  show "set (vals_to_visit s0) \<subseteq> V" by (rule start)
qed

text \<open>
  C10. On every finite statement graph, cyclic or not, \<open>checkCycle\<close> and
  \<open>isRecursivelyDefined\<close> return; and what one iteration of \<open>isRecursivelyDefined\<close> adds to
  its queue is disjoint from the visited set.
\<close>

theorem traversals_terminate:
  assumes "finite U" and "\<forall>s\<in>U. set (next_of f s) \<subseteq> U"
    and "ValStmt ` set to \<subseteq> U" and "ValStmt val \<in> U"
  shows "(\<exists>r. checkCycle f from to = Some r) \<and>
         (\<exists>b. isRecursivelyDefined f val = Some b) \<and>
         (\<forall>s v rest. vals_to_visit s = v # rest \<longrightarrow>
            (\<exists>new. vals_to_visit (isRecursivelyDefined_step f val s) = rest @ new \<and>
                   set new \<inter> visited_vals (isRecursivelyDefined_step f val s) = {}))"
proof (intro conjI allI impI)
  from assms(3) have "set (cc_queue \<lparr>cc_path = [], cc_visited = {}, cc_queue = map ValStmt to,
      cc_result = None\<rparr>) \<subseteq> U" by simp
  from checkCycle_loop_terminates [OF assms(1,2) this, of "from"]
  show "\<exists>r. checkCycle f from to = Some r" by (auto simp: checkCycle_def)
next
  let ?V = "ValStmt -` U"
  have fin: "finite ?V" using assms(1) by (intro finite_vimageI) (auto simp: inj_on_def)
  have closed: "\<forall>v\<in>?V. \<forall>d. val_definition (val_heap f v) = Some d
                   \<longrightarrow> set (inputs (expr_heap f d)) \<subseteq> ?V"
  proof (intro ballI allI impI)
    fix v d assume v: "v \<in> ?V" and d: "val_definition (val_heap f v) = Some d"
    from v have "ValStmt v \<in> U" by simp
    with assms(2) have "set (next_of f (ValStmt v)) \<subseteq> U" by blast
    with d have "ExprStmt d \<in> U" by simp
    with assms(2) have "set (next_of f (ExprStmt d)) \<subseteq> U" by blast
    then show "set (inputs (expr_heap f d)) \<subseteq> ?V" by auto
  qed
  from assms(4) have "set (vals_to_visit \<lparr>vals_to_visit = [val], visited_vals = {},
      rd_result = None\<rparr>) \<subseteq> ?V" by simp
  from isRecursivelyDefined_loop_terminates [OF fin closed this, of val]
  show "\<exists>b. isRecursivelyDefined f val = Some b" by (auto simp: isRecursivelyDefined_def)
next
  fix s :: recursion_state and v rest
  assume q: "vals_to_visit s = v # rest"
  define t where "t = isRecursivelyDefined_step f val s"
  from q t_def have "\<exists>new. vals_to_visit t = rest @ new \<and> set new \<inter> visited_vals t = {}"
    by (cases rule: isRecursivelyDefined_step_cases) auto
  then show "\<exists>new. vals_to_visit (isRecursivelyDefined_step f val s) = rest @ new \<and>
                   set new \<inter> visited_vals (isRecursivelyDefined_step f val s) = {}"
    by (simp add: t_def)
qed

text \<open>The theorem at the graph with the self-dependent value 0.\<close>

theorem traversals_terminate_witness:
  "(\<exists>r. checkCycle self_loop_fusion {} [0, 2] = Some r) \<and>
   (\<exists>b. isRecursivelyDefined self_loop_fusion 0 = Some b) \<and>
   (\<exists>new. vals_to_visit (isRecursivelyDefined_step self_loop_fusion 0
              \<lparr>vals_to_visit = [2, 3], visited_vals = {3}, rd_result = None\<rparr>) = [3] @ new \<and>
          set new \<inter> visited_vals (isRecursivelyDefined_step self_loop_fusion 0
              \<lparr>vals_to_visit = [2, 3], visited_vals = {3}, rd_result = None\<rparr>) = {})"
proof -
  let ?U = "{ValStmt 0, ValStmt 1, ValStmt 2, ValStmt 3, ExprStmt 1, ExprStmt 2}"
  have U: "finite ?U" "\<forall>s\<in>?U. set (next_of self_loop_fusion s) \<subseteq> ?U"
    "ValStmt ` set [0, 2] \<subseteq> ?U" "ValStmt 0 \<in> ?U"
    by (simp_all add: self_loop_fusion_def example_defs)
  have q: "vals_to_visit \<lparr>vals_to_visit = [2, 3], visited_vals = {3}, rd_result = None\<rparr> = 2 # [3]"
    by simp
  from traversals_terminate [OF U, of "{}"] q show ?thesis by blast
qed

end
